theory Spec2Isabelle
  imports Main "HOL-Library.AList"
begin

section \<open>Text: the string operations the index relies on\<close>

text \<open>
  Strings are lists of 8-bit characters. The Python operations are embedded on ASCII text:
  \<^verbatim>\<open>str.strip()\<close> removes the characters \<^verbatim>\<open>str.isspace\<close> accepts below 128
  (codes 9 to 13 and 28 to 32), \<^verbatim>\<open>str.lower()\<close> maps \<^verbatim>\<open>A-Z\<close> to \<^verbatim>\<open>a-z\<close>,
  and the regular-expression class \<^verbatim>\<open>\w\<close> is letters, digits and the underscore.
  Characters from 128 on are left unchanged and belong to no class.
\<close>

definition is_space :: "char \<Rightarrow> bool" where
  "is_space c = (let n = (of_char c :: nat) in (9 \<le> n \<and> n \<le> 13) \<or> (28 \<le> n \<and> n \<le> 32))"

definition lower_char :: "char \<Rightarrow> char" where
  "lower_char c = (let n = (of_char c :: nat) in if 65 \<le> n \<and> n \<le> 90 then char_of (n + 32) else c)"

definition lower :: "string \<Rightarrow> string" where
  "lower s = map lower_char s"

definition strip :: "string \<Rightarrow> string" where
  "strip s = rev (dropWhile is_space (rev (dropWhile is_space s)))"

definition is_word_char :: "char \<Rightarrow> bool" where
  "is_word_char c = (let n = (of_char c :: nat) in
     (48 \<le> n \<and> n \<le> 57) \<or> (65 \<le> n \<and> n \<le> 90) \<or> n = 95 \<or> (97 \<le> n \<and> n \<le> 122))"

definition is_path_char :: "char \<Rightarrow> bool" where
  "is_path_char c = (is_word_char c \<or> c = CHR ''.'' \<or> c = CHR ''/'' \<or> c = CHR ''-'')"

text \<open>\<^verbatim>\<open>needle in hay\<close> on strings: \<open>needle\<close> occurs as a contiguous block of \<open>hay\<close>.\<close>

definition starts_with :: "string \<Rightarrow> string \<Rightarrow> bool" where
  "starts_with s p = (take (length p) s = p)"

fun is_substring :: "string \<Rightarrow> string \<Rightarrow> bool" where
  "is_substring needle [] = (needle = [])"
| "is_substring needle (h # hs) = (starts_with (h # hs) needle \<or> is_substring needle hs)"

text \<open>
  \<^verbatim>\<open>str.splitlines()\<close>: a line ends at a line boundary (\<^verbatim>\<open>\n\<close>, \<^verbatim>\<open>\r\<close>, \<^verbatim>\<open>\r\n\<close>,
  \<^verbatim>\<open>\v\<close>, \<^verbatim>\<open>\f\<close>, and the separators 28 to 30); the text after the last boundary is a
  line only when it is not empty.
\<close>

definition is_linebreak :: "char \<Rightarrow> bool" where
  "is_linebreak c = (let n = (of_char c :: nat) in (10 \<le> n \<and> n \<le> 13) \<or> (28 \<le> n \<and> n \<le> 30))"

fun splitlines_from :: "string \<Rightarrow> string \<Rightarrow> string list" where
  "splitlines_from cur [] = (if cur = [] then [] else [cur])"
| "splitlines_from cur (c # cs) =
     (if c = CHR 0x0D then
        (case cs of
           [] \<Rightarrow> [cur]
         | d # ds \<Rightarrow> if d = CHR 0x0A then cur # splitlines_from [] ds
                     else cur # splitlines_from [] (d # ds))
      else if is_linebreak c then cur # splitlines_from [] cs
      else splitlines_from (cur @ [c]) cs)"

definition splitlines :: "string \<Rightarrow> string list" where
  "splitlines text = splitlines_from [] text"



text \<open>\<^verbatim>\<open>xs[:m]\<close> for a Python integer \<open>m\<close>: a negative bound counts from the end.\<close>

definition slice_to :: "int \<Rightarrow> 'a list \<Rightarrow> 'a list" where
  "slice_to m xs = (if 0 \<le> m then take (nat m) xs else take (length xs - nat (- m)) xs)"

section \<open>Dictionaries\<close>

text \<open>
  A Python dict keeps its keys in insertion order: it is an association list read by
  \<^const>\<open>map_of\<close> and written by \<^const>\<open>AList.update\<close>, which replaces the value of
  a key in place and appends a new key at the end. A \<^verbatim>\<open>defaultdict\<close> read at a
  missing key stores the default there (\<open>dd_touch\<close>); \<^verbatim>\<open>d.get(k, dflt)\<close> does not.
\<close>

definition dict_get :: "('k \<times> 'v) list \<Rightarrow> 'k \<Rightarrow> 'v \<Rightarrow> 'v" where
  "dict_get d k dflt = (case map_of d k of None \<Rightarrow> dflt | Some v \<Rightarrow> v)"

definition dd_touch :: "'k \<Rightarrow> 'v \<Rightarrow> ('k \<times> 'v) list \<Rightarrow> ('k \<times> 'v) list" where
  "dd_touch k dflt d = (case map_of d k of None \<Rightarrow> d @ [(k, dflt)] | Some v \<Rightarrow> d)"

definition set_add :: "'a \<Rightarrow> 'a list \<Rightarrow> 'a list" where
  "set_add x xs = (if x \<in> set xs then xs else xs @ [x])"

section \<open>Node naming and extraction\<close>

definition normalize_node :: "string \<Rightarrow> string" where
  "normalize_node label = lower (strip label)"

definition tool_node :: "string \<Rightarrow> string" where
  "tool_node name = ''tool:'' @ normalize_node name"

definition file_node :: "string \<Rightarrow> string" where
  "file_node name = ''file:'' @ normalize_node name"

definition error_node :: "string \<Rightarrow> string" where
  "error_node msg = ''error:'' @ normalize_node (take 60 msg)"

text \<open>
  The pattern \<^verbatim>\<open>[\w./\-]+\.\w{1,6}\<close> tried at the head of a string. The class takes the
  longest run of path characters and gives characters back one at a time (\<open>backtrack\<close>,
  from the longest candidate down to one character) until a dot and at least one word
  character follow; the extension then takes as many word characters as it can, six at
  most. The result is the length of the match.
\<close>

definition ext_len :: "string \<Rightarrow> nat" where
  "ext_len s = min 6 (length (takeWhile is_word_char s))"

fun backtrack :: "string \<Rightarrow> nat \<Rightarrow> nat option" where
  "backtrack s 0 = None"
| "backtrack s (Suc k) =
     (if Suc k < length s \<and> s ! Suc k = CHR ''.'' \<and> 0 < ext_len (drop (Suc (Suc k)) s)
      then Some (Suc (Suc k) + ext_len (drop (Suc (Suc k)) s))
      else backtrack s k)"

definition file_re_match :: "string \<Rightarrow> nat option" where
  "file_re_match s = backtrack s (length (takeWhile is_path_char s))"

lemma backtrack_pos: "backtrack s k = Some l \<Longrightarrow> 0 < l"
  by (induction k) (auto split: if_splits)

lemma file_re_match_pos: "file_re_match s = Some l \<Longrightarrow> 0 < l"
  unfolding file_re_match_def by (rule backtrack_pos)

text \<open>\<^verbatim>\<open>findall\<close>: the matches from left to right, each search starting where the
  previous match ended, or one character further when there is no match.\<close>

function file_re_findall :: "string \<Rightarrow> string list" where
  "file_re_findall s =
     (if s = [] then []
      else case file_re_match s of
             Some l \<Rightarrow> take l s # file_re_findall (drop l s)
           | None \<Rightarrow> file_re_findall (tl s))"
  by pat_completeness auto
termination
proof (relation "measure length")
  show "wf (measure length)" by simp
next
  fix s :: string and l
  assume "s \<noteq> []" "file_re_match s = Some l"
  then show "(drop l s, s) \<in> measure length"
    using file_re_match_pos [of s l] by simp
next
  fix s :: string
  assume "s \<noteq> []"
  then show "(tl s, s) \<in> measure length" by (cases s) simp_all
qed

declare file_re_findall.simps [simp del]

definition extract_file_refs :: "string \<Rightarrow> string list" where
  "extract_file_refs text =
     take 5 (filter (\<lambda>m. CHR ''/'' \<in> set m \<or> CHR ''.'' \<in> set m) (file_re_findall text))"

definition error_re_search :: "string \<Rightarrow> bool" where
  "error_re_search line =
     list_ex (\<lambda>k. is_substring k (lower line)) [''error'', ''exception'', ''traceback'', ''failed'']"

definition extract_error_refs :: "string \<Rightarrow> string list" where
  "extract_error_refs text =
     take 3 (map (\<lambda>line. take 60 (strip line)) (filter error_re_search (splitlines text)))"

section \<open>Session records\<close>

text \<open>
  A session is the dict the parser produces. Each field holds the text the code reads from
  it: \<open>session_id\<close> is \<^verbatim>\<open>str(session.get("session_id", id(session)))\<close>, the
  identifier \<^verbatim>\<open>add_session\<close> files the session under; the other fields are the
  \<^verbatim>\<open>str(d.get(key, ""))\<close> of their keys. A record always has its keys, so as a dict
  it is never empty.
\<close>

record tool_use =
  tool :: string
  input :: string

record message =
  role :: string
  content :: string
  tool_uses :: "tool_use list"

record session =
  session_id :: string
  project :: string
  trajectory_type :: string
  model :: string
  start_time :: string
  messages :: "message list"

section \<open>The graph and its two backends\<close>

text \<open>
  The attribute dict of an edge: \<^verbatim>\<open>{"weight": ..., "rel": ...}\<close>. The weight is read with
  \<^verbatim>\<open>.get("weight", 1)\<close>, so the key may be missing.
\<close>

record edge_attrs =
  weight :: "int option"
  rel :: string

definition bump_weight :: "edge_attrs \<Rightarrow> edge_attrs" where
  "bump_weight a = a\<lparr>weight := Some ((case weight a of None \<Rightarrow> 1 | Some w \<Rightarrow> w) + 1)\<rparr>"

definition new_attrs :: "string \<Rightarrow> edge_attrs" where
  "new_attrs r = \<lparr>weight = Some 1, rel = r\<rparr>"

type_synonym adjacency = "(string \<times> (string \<times> edge_attrs) list) list"

definition adj_edge :: "adjacency \<Rightarrow> string \<Rightarrow> string \<Rightarrow> edge_attrs option" where
  "adj_edge adj u v = (case map_of adj u of None \<Rightarrow> None | Some d \<Rightarrow> map_of d v)"

definition adj_size :: "adjacency \<Rightarrow> nat" where
  "adj_size adj = sum_list (map (\<lambda>kv. length (snd kv)) adj)"

subsection \<open>The adjacency-dict graph of the repository\<close>

text \<open>
  \<^verbatim>\<open>_PureGraph\<close>: \<open>p_out\<close> is \<^verbatim>\<open>_out\<close>, a defaultdict from a node to the dict of its
  successors; \<open>p_in\<close> is \<^verbatim>\<open>_in\<close>, a defaultdict from a node to the set of its
  predecessors. A set is kept as the list of its members in the order of insertion, without
  duplicates; the order in which Python iterates it is a parameter (see
  \<open>pure_predecessors\<close>).
\<close>

record pure_graph =
  p_out :: adjacency
  p_in :: "(string \<times> string list) list"

definition pure_make_graph :: pure_graph where
  "pure_make_graph = \<lparr>p_out = [], p_in = []\<rparr>"

definition pure_add_edge :: "pure_graph \<Rightarrow> string \<Rightarrow> string \<Rightarrow> string \<Rightarrow> pure_graph" where
  "pure_add_edge g src dst r =
     (let out1 = dd_touch src [] (p_out g);
          row = dict_get out1 src [];
          row' = (case map_of row dst of
                    Some a \<Rightarrow> AList.update dst (bump_weight a) row
                  | None \<Rightarrow> AList.update dst (new_attrs r) row);
          out2 = AList.update src row' out1;
          in1 = dd_touch dst [] (p_in g);
          in2 = AList.update dst (set_add src (dict_get in1 dst [])) in1;
          in3 = dd_touch src [] in2;
          out3 = dd_touch dst [] out2
      in \<lparr>p_out = out3, p_in = in3\<rparr>)"

definition pure_has_edge :: "pure_graph \<Rightarrow> string \<Rightarrow> string \<Rightarrow> bool" where
  "pure_has_edge g src dst = (map_of (dict_get (p_out g) src []) dst \<noteq> None)"

definition pure_successors :: "pure_graph \<Rightarrow> string \<Rightarrow> string list" where
  "pure_successors g node = map fst (dict_get (p_out g) node [])"

text \<open>
  \<^verbatim>\<open>list(self._in.get(node, set()))\<close>: the members of the set in the order the process
  iterates it. That order follows the hashes of the strings and is not fixed by the
  program; \<open>set_order\<close> is that order as a function of the members in insertion order
  (a permutation of its argument), and every statement about this backend holds for every
  \<open>set_order\<close>.
\<close>

definition pure_predecessors ::
  "(string list \<Rightarrow> string list) \<Rightarrow> pure_graph \<Rightarrow> string \<Rightarrow> string list" where
  "pure_predecessors set_order g node = set_order (dict_get (p_in g) node [])"

definition pure_contains :: "pure_graph \<Rightarrow> string \<Rightarrow> bool" where
  "pure_contains g node = (map_of (p_out g) node \<noteq> None \<or> map_of (p_in g) node \<noteq> None)"

definition pure_number_of_nodes :: "pure_graph \<Rightarrow> nat" where
  "pure_number_of_nodes g = card (set (map fst (p_out g)) \<union> set (map fst (p_in g)))"

definition pure_number_of_edges :: "pure_graph \<Rightarrow> nat" where
  "pure_number_of_edges g = adj_size (p_out g)"

definition pure_neighbors ::
  "(string list \<Rightarrow> string list) \<Rightarrow> pure_graph \<Rightarrow> string \<Rightarrow> string list" where
  "pure_neighbors set_order g node =
     (if \<not> pure_contains g node then []
      else pure_successors g node @ pure_predecessors set_order g node)"

subsection \<open>The library graph\<close>

text \<open>
  \<^verbatim>\<open>networkx.DiGraph\<close> is not part of the repository; it is embedded from its documented
  behaviour. \<open>nx_succ\<close> is the dict from a node to the dict of its successors with their
  attribute dicts, \<open>nx_pred\<close> the dict from a node to its predecessors, both in insertion
  order; every node is a key of both. \<^verbatim>\<open>DiGraph.add_edge(u, v, **attr)\<close> adds the two
  nodes when they are missing and stores the attributes under \<open>u\<close>, \<open>v\<close>.
\<close>

record nx_graph =
  nx_succ :: adjacency
  nx_pred :: "(string \<times> string list) list"

definition nx_make_graph :: nx_graph where
  "nx_make_graph = \<lparr>nx_succ = [], nx_pred = []\<rparr>"

definition nx_add_node :: "string \<Rightarrow> nx_graph \<Rightarrow> nx_graph" where
  "nx_add_node n g =
     (case map_of (nx_succ g) n of
        None \<Rightarrow> \<lparr>nx_succ = nx_succ g @ [(n, [])], nx_pred = dd_touch n [] (nx_pred g)\<rparr>
      | Some d \<Rightarrow> g)"

definition nx_DiGraph_add_edge :: "nx_graph \<Rightarrow> string \<Rightarrow> string \<Rightarrow> edge_attrs \<Rightarrow> nx_graph" where
  "nx_DiGraph_add_edge g u v a =
     (let g1 = nx_add_node v (nx_add_node u g)
      in \<lparr>nx_succ = AList.update u (AList.update v a (dict_get (nx_succ g1) u [])) (nx_succ g1),
          nx_pred = AList.update v (set_add u (dict_get (nx_pred g1) v [])) (nx_pred g1)\<rparr>)"

definition nx_has_edge :: "nx_graph \<Rightarrow> string \<Rightarrow> string \<Rightarrow> bool" where
  "nx_has_edge g u v = (adj_edge (nx_succ g) u v \<noteq> None)"

text \<open>
  \<^verbatim>\<open>_add_edge\<close> over the library graph: \<^verbatim>\<open>graph.has_edge(src, dst)\<close> and the read of
  \<^verbatim>\<open>graph[src][dst]\<close> are the one lookup \<open>adj_edge\<close>.
\<close>

definition nx_add_edge :: "nx_graph \<Rightarrow> string \<Rightarrow> string \<Rightarrow> string \<Rightarrow> nx_graph" where
  "nx_add_edge g src dst r =
     (case adj_edge (nx_succ g) src dst of
        Some a \<Rightarrow>
          g\<lparr>nx_succ :=
              AList.update src (AList.update dst (bump_weight a) (dict_get (nx_succ g) src []))
                (nx_succ g)\<rparr>
      | None \<Rightarrow> nx_DiGraph_add_edge g src dst (new_attrs r))"

definition nx_contains :: "nx_graph \<Rightarrow> string \<Rightarrow> bool" where
  "nx_contains g node = (map_of (nx_succ g) node \<noteq> None)"

definition nx_neighbors :: "nx_graph \<Rightarrow> string \<Rightarrow> string list" where
  "nx_neighbors g node =
     (if \<not> nx_contains g node then []
      else map fst (dict_get (nx_succ g) node []) @ dict_get (nx_pred g) node [])"

definition nx_number_of_nodes :: "nx_graph \<Rightarrow> nat" where
  "nx_number_of_nodes g = length (nx_succ g)"

definition nx_number_of_edges :: "nx_graph \<Rightarrow> nat" where
  "nx_number_of_edges g = adj_size (nx_succ g)"

subsection \<open>The module-level graph functions\<close>

text \<open>
  The module defines \<^verbatim>\<open>_make_graph\<close>, \<^verbatim>\<open>_add_edge\<close>, \<^verbatim>\<open>_neighbors\<close>,
  \<^verbatim>\<open>_node_count\<close>, \<^verbatim>\<open>_edge_count\<close> and \<^verbatim>\<open>_NETWORKX_AVAILABLE\<close> once, from the library
  when it can be imported and from the adjacency-dict graph otherwise. A backend is that
  choice; \<open>edge_data\<close> reads \<^verbatim>\<open>graph[src][dst]\<close>.
\<close>

record 'g backend =
  make_graph :: 'g
  add_edge :: "'g \<Rightarrow> string \<Rightarrow> string \<Rightarrow> string \<Rightarrow> 'g"
  neighbors :: "'g \<Rightarrow> string \<Rightarrow> string list"
  node_count :: "'g \<Rightarrow> nat"
  edge_count :: "'g \<Rightarrow> nat"
  edge_data :: "'g \<Rightarrow> string \<Rightarrow> string \<Rightarrow> edge_attrs option"
  networkx_available :: bool

definition nx_backend :: "nx_graph backend" where
  "nx_backend = \<lparr>make_graph = nx_make_graph, add_edge = nx_add_edge, neighbors = nx_neighbors,
     node_count = nx_number_of_nodes, edge_count = nx_number_of_edges,
     edge_data = (\<lambda>g. adj_edge (nx_succ g)), networkx_available = True\<rparr>"

definition pure_backend :: "(string list \<Rightarrow> string list) \<Rightarrow> pure_graph backend" where
  "pure_backend set_order = \<lparr>make_graph = pure_make_graph, add_edge = pure_add_edge,
     neighbors = pure_neighbors set_order, node_count = pure_number_of_nodes,
     edge_count = pure_number_of_edges, edge_data = (\<lambda>g. adj_edge (p_out g)),
     networkx_available = False\<rparr>"

section \<open>Indexing one session\<close>

definition index_tool_use ::
  "'g backend \<Rightarrow> tool_use \<Rightarrow> 'g \<times> string list \<Rightarrow> 'g \<times> string list" where
  "index_tool_use B tu st =
     (let tool_name = strip (tool tu) in
      if tool_name = [] then st
      else let tnode = tool_node tool_name
           in (fold (\<lambda>fref g. add_edge B g (file_node fref) tnode ''accessed_by'')
                 (extract_file_refs (input tu)) (fst st),
               snd st @ [tnode]))"

definition index_message ::
  "'g backend \<Rightarrow> message \<Rightarrow> 'g \<times> string list \<Rightarrow> 'g \<times> string list" where
  "index_message B msg st =
     (let g1 = fold (\<lambda>fref g. add_edge B g (file_node fref) (file_node fref) ''self'')
                 (extract_file_refs (content msg)) (fst st);
          g2 = (if role msg = ''user'' \<or> role msg = ''tool_result''
                then fold (\<lambda>err g. add_edge B g (error_node err) (error_node err) ''self'')
                       (extract_error_refs (content msg)) g1
                else g1)
      in fold (index_tool_use B) (tool_uses msg) (g2, snd st))"

definition index_session :: "'g backend \<Rightarrow> 'g \<Rightarrow> session \<Rightarrow> 'g" where
  "index_session B g s =
     (let is_successful = (trajectory_type s \<noteq> ''correction_loop'');
          st = fold (index_message B) (messages s) (g, []);
          tool_seq = snd st
      in fold (\<lambda>i g. add_edge B g (tool_seq ! i) (tool_seq ! (i + 1))
                       (if is_successful then ''led_to_success'' else ''co-occurs''))
           [0 ..< length tool_seq - 1] (fst st))"

section \<open>GraphIndex\<close>

record 'g graph_index =
  gi_graph :: 'g
  node_to_sessions :: "(string \<times> string list) list"
  gi_sessions :: "(string \<times> session) list"

record index_stats =
  st_nodes :: nat
  st_edges :: nat
  st_sessions :: nat
  st_networkx_available :: bool

definition new_index :: "'g backend \<Rightarrow> 'g graph_index" where
  "new_index B = \<lparr>gi_graph = make_graph B, node_to_sessions = [], gi_sessions = []\<rparr>"

definition record_tool ::
  "string \<Rightarrow> tool_use \<Rightarrow> (string \<times> string list) list \<Rightarrow> (string \<times> string list) list" where
  "record_tool sid tu nts =
     (let tool_name = strip (tool tu) in
      if tool_name \<noteq> [] then
        (let tnode = tool_node tool_name;
             nts1 = dd_touch tnode [] nts
         in if sid \<notin> set (dict_get nts1 tnode [])
            then AList.update tnode (dict_get nts1 tnode [] @ [sid]) nts1
            else nts1)
      else nts)"

definition add_session :: "'g backend \<Rightarrow> 'g graph_index \<Rightarrow> session \<Rightarrow> 'g graph_index" where
  "add_session B ix s =
     (let g = index_session B (gi_graph ix) s;
          sid = session_id s
      in \<lparr>gi_graph = g,
          node_to_sessions =
            fold (\<lambda>msg nts. fold (record_tool sid) (tool_uses msg) nts) (messages s)
              (node_to_sessions ix),
          gi_sessions = AList.update sid s (gi_sessions ix)\<rparr>)"

definition build :: "'g backend \<Rightarrow> 'g graph_index \<Rightarrow> session list \<Rightarrow> 'g graph_index" where
  "build B ix sessions =
     fold (\<lambda>s ix'. add_session B ix' s) sessions
       (ix\<lparr>gi_graph := make_graph B, node_to_sessions := [], gi_sessions := []\<rparr>)"

definition award :: "int \<Rightarrow> string \<Rightarrow> (string \<times> int) list \<Rightarrow> (string \<times> int) list" where
  "award pts sid scores = AList.update sid (dict_get scores sid 0 + pts) scores"

definition score_node ::
  "'g backend \<Rightarrow> 'g graph_index \<Rightarrow> string \<Rightarrow> (string \<times> int) list \<Rightarrow> (string \<times> int) list" where
  "score_node B ix node scores =
     (let norm = normalize_node node;
          direct = fold (award 2) (dict_get (node_to_sessions ix) norm []) scores
      in fold (\<lambda>neighbor sc. fold (award 1) (dict_get (node_to_sessions ix) neighbor []) sc)
           (neighbors B (gi_graph ix) norm) direct)"

definition candidate_scores ::
  "'g backend \<Rightarrow> 'g graph_index \<Rightarrow> string list \<Rightarrow> (string \<times> int) list" where
  "candidate_scores B ix context_nodes = fold (score_node B ix) context_nodes []"

text \<open>
  \<^verbatim>\<open>ranked[:max_results]\<close> is the slice \<open>slice_to\<close>. A stored record is never the empty
  dict, so the test \<^verbatim>\<open>if session:\<close> fails only when \<^verbatim>\<open>self._sessions.get(sid)\<close> finds
  no record.
\<close>

definition query :: "'g backend \<Rightarrow> 'g graph_index \<Rightarrow> string list \<Rightarrow> int \<Rightarrow> session list" where
  "query B ix context_nodes max_results =
     (if context_nodes = [] then []
      else let ranked = sort_key (\<lambda>x. - snd x) (candidate_scores B ix context_nodes)
           in fold (\<lambda>x results. case map_of (gi_sessions ix) (fst x) of
                                    Some s \<Rightarrow> results @ [s]
                                  | None \<Rightarrow> results)
                (slice_to max_results ranked) [])"

definition stats :: "'g backend \<Rightarrow> 'g graph_index \<Rightarrow> index_stats" where
  "stats B ix = \<lparr>st_nodes = node_count B (gi_graph ix), st_edges = edge_count B (gi_graph ix),
     st_sessions = length (gi_sessions ix), st_networkx_available = networkx_available B\<rparr>"

section \<open>The session index service\<close>

text \<open>
  An exception raised by a call is a value: \<open>Inl\<close> of the exception, \<open>Inr\<close> of the
  result. \<open>Exception\<close> stands for an instance of \<^verbatim>\<open>Exception\<close> or of a subclass, the
  class the handler in \<^verbatim>\<open>meta\<close> names; \<open>BaseExceptionOnly\<close> for an instance of
  \<^verbatim>\<open>BaseException\<close> that is not an \<^verbatim>\<open>Exception\<close> (\<^verbatim>\<open>KeyboardInterrupt\<close>,
  \<^verbatim>\<open>SystemExit\<close>, \<^verbatim>\<open>asyncio.CancelledError\<close>), which that handler does not catch.
\<close>

datatype exn = Exception string | BaseExceptionOnly string

datatype stat_value = Count nat | Flag bool

type_synonym stats_dict = "(string \<times> stat_value) list"

datatype py_value = PyDict stats_dict | PyOther

text \<open>
  The index object of the service comes from an injected factory. What the service uses of
  it: \<^verbatim>\<open>factory()\<close> followed by \<^verbatim>\<open>build(sessions)\<close>, \<^verbatim>\<open>query\<close>, whether it has an
  attribute \<^verbatim>\<open>stats\<close>, and what calling \<^verbatim>\<open>stats()\<close> does.
\<close>

record 'i index_api =
  api_build :: "session list \<Rightarrow> 'i"
  api_query :: "'i \<Rightarrow> string list \<Rightarrow> int \<Rightarrow> session list"
  api_has_stats :: "'i \<Rightarrow> bool"
  api_stats :: "'i \<Rightarrow> exn + py_value"



record project_desc =
  dir_name :: string
  source :: string


record 'i service =
  svc_sessions :: "session list option"
  svc_index :: "'i option"
  svc_project_count :: nat
  svc_refresh_count :: nat
  svc_last_refresh_ms :: int

record snapshot =
  session_count :: nat
  project_count :: nat
  refresh_count :: nat
  last_refresh_ms :: int
  index_stats :: stats_dict

definition new_service :: "'i service" where
  "new_service = \<lparr>svc_sessions = None, svc_index = None, svc_project_count = 0,
     svc_refresh_count = 0, svc_last_refresh_ms = 0\<rparr>"

text \<open>\<^verbatim>\<open>try: ... except Exception: index_stats = {}\<close> around the call of \<^verbatim>\<open>stats()\<close>.\<close>

definition gather_stats :: "'i index_api \<Rightarrow> 'i option \<Rightarrow> exn + stats_dict" where
  "gather_stats api index =
     (case index of
        None \<Rightarrow> Inr []
      | Some i \<Rightarrow>
          if api_has_stats api i then
            (case api_stats api i of
               Inl (Exception e) \<Rightarrow> Inr []
             | Inl (BaseExceptionOnly e) \<Rightarrow> Inl (BaseExceptionOnly e)
             | Inr (PyDict d) \<Rightarrow> Inr d
             | Inr PyOther \<Rightarrow> Inr [])
          else Inr [])"

definition meta :: "'i index_api \<Rightarrow> 'i service \<Rightarrow> exn + snapshot" where
  "meta api svc =
     (let count = length (case svc_sessions svc of None \<Rightarrow> [] | Some ss \<Rightarrow> ss)
      in case gather_stats api (svc_index svc) of
           Inl e \<Rightarrow> Inl e
         | Inr st \<Rightarrow> Inr \<lparr>session_count = count, project_count = svc_project_count svc,
                        refresh_count = svc_refresh_count svc,
                        last_refresh_ms = svc_last_refresh_ms svc, index_stats = st\<rparr>)"






section \<open>The query-serving layer\<close>











section \<open>Properties of the graph and of indexing\<close>

text \<open>
  The edges one session sends to \<^verbatim>\<open>_add_edge\<close>, in the order \<^verbatim>\<open>_index_session\<close> sends
  them: for each message the self-loops of its file and error references and the
  file-to-tool edges of its tool uses, then the transitions between consecutive tools.
  \<open>index_session_edges\<close> below shows that indexing is exactly adding these edges.
\<close>

type_synonym edge_event = "string \<times> string \<times> string"

definition edge_ends :: "edge_event \<Rightarrow> string \<times> string" where
  "edge_ends e = (fst e, fst (snd e))"

definition add_edges :: "'g backend \<Rightarrow> edge_event list \<Rightarrow> 'g \<Rightarrow> 'g" where
  "add_edges B es g = fold (\<lambda>e g. add_edge B g (fst e) (fst (snd e)) (snd (snd e))) es g"

definition tool_nodes_of :: "tool_use list \<Rightarrow> string list" where
  "tool_nodes_of tus = map tool_node (filter (\<lambda>n. n \<noteq> []) (map (\<lambda>tu. strip (tool tu)) tus))"

definition tool_sequence :: "session \<Rightarrow> string list" where
  "tool_sequence s = tool_nodes_of (concat (map tool_uses (messages s)))"

definition tool_use_edges :: "tool_use \<Rightarrow> edge_event list" where
  "tool_use_edges tu =
     (if strip (tool tu) = [] then []
      else map (\<lambda>f. (file_node f, tool_node (strip (tool tu)), ''accessed_by''))
             (extract_file_refs (input tu)))"

definition message_edges :: "message \<Rightarrow> edge_event list" where
  "message_edges msg =
     map (\<lambda>f. (file_node f, file_node f, ''self'')) (extract_file_refs (content msg))
     @ (if role msg = ''user'' \<or> role msg = ''tool_result''
        then map (\<lambda>e. (error_node e, error_node e, ''self'')) (extract_error_refs (content msg))
        else [])
     @ concat (map tool_use_edges (tool_uses msg))"

definition transitions :: "session \<Rightarrow> (string \<times> string) list" where
  "transitions s = zip (tool_sequence s) (tl (tool_sequence s))"

definition transition_rel :: "session \<Rightarrow> string" where
  "transition_rel s = (if trajectory_type s \<noteq> ''correction_loop'' then ''led_to_success'' else ''co-occurs'')"

definition session_edges :: "session \<Rightarrow> edge_event list" where
  "session_edges s =
     concat (map message_edges (messages s))
     @ map (\<lambda>p. (fst p, snd p, transition_rel s)) (transitions s)"

text \<open>
  What both backends owe the index: \<^verbatim>\<open>_add_edge\<close> changes the attributes of one edge
  only, creating it with weight 1 and the given tag or raising the weight it has, and
  the edge count grows exactly when the edge is new.
\<close>

definition edge_laws :: "'g backend \<Rightarrow> bool" where
  "edge_laws B =
     ((\<forall>g u v r x y. edge_data B (add_edge B g u v r) x y =
          (if x = u \<and> y = v
           then Some (case edge_data B g u v of None \<Rightarrow> new_attrs r | Some a \<Rightarrow> bump_weight a)
           else edge_data B g x y))
      \<and> (\<forall>g u v r. edge_count B (add_edge B g u v r) =
          (if edge_data B g u v = None then Suc (edge_count B g) else edge_count B g)))"

definition weighted :: "edge_attrs option \<Rightarrow> bool" where
  "weighted ao = (case ao of None \<Rightarrow> False | Some a \<Rightarrow> weight a \<noteq> None)"

text \<open>
  Weights accumulate: adding an existing edge raises its weight by one and keeps its tag,
  adding an absent edge creates it with weight 1, no other edge changes; indexing a
  session a second time raises the weight of every edge of the session by the number of
  times the session sends it, and leaves the number of edges unchanged.
\<close>

definition accumulates_weights :: "'g backend \<Rightarrow> bool" where
  "accumulates_weights B =
     ((\<forall>g src dst r a w.
         edge_data B g src dst = Some a \<and> weight a = Some w \<longrightarrow>
           edge_data B (add_edge B g src dst r) src dst = Some \<lparr>weight = Some (w + 1), rel = rel a\<rparr>
           \<and> edge_count B (add_edge B g src dst r) = edge_count B g)
      \<and> (\<forall>g src dst r.
         edge_data B g src dst = None \<longrightarrow>
           edge_data B (add_edge B g src dst r) src dst = Some \<lparr>weight = Some 1, rel = r\<rparr>
           \<and> edge_count B (add_edge B g src dst r) = edge_count B g + 1)
      \<and> (\<forall>g src dst r x y.
         (x, y) \<noteq> (src, dst) \<longrightarrow>
           edge_data B (add_edge B g src dst r) x y = edge_data B g x y)
      \<and> (\<forall>g s u v.
         (u, v) \<in> set (map edge_ends (session_edges s)) \<longrightarrow>
           (\<exists>a w. edge_data B (index_session B g s) u v = Some a \<and> weight a = Some w
              \<and> edge_data B (index_session B (index_session B g s) s) u v
                  = Some \<lparr>weight = Some (w + int (count_list (map edge_ends (session_edges s)) (u, v))),
                          rel = rel a\<rparr>))
      \<and> (\<forall>g s. edge_count B (index_session B (index_session B g s) s)
                 = edge_count B (index_session B g s)))"

text \<open>
  The set of edges of a graph, and what a fresh graph owes the index: no edge.
\<close>

definition edge_set :: "'g backend \<Rightarrow> 'g \<Rightarrow> (string \<times> string) set" where
  "edge_set B g = {p. edge_data B g (fst p) (snd p) \<noteq> None}"

definition empty_laws :: "'g backend \<Rightarrow> bool" where
  "empty_laws B = ((\<forall>u v. edge_data B (make_graph B) u v = None) \<and> edge_count B (make_graph B) = 0)"

text \<open>
  What building an index from the single session \<open>s\<close> gives when the session is
  successful: every consecutive pair of the tool sequence is an edge tagged
  \<open>''led_to_success''\<close>; the edge count is the number of distinct (source, destination)
  pairs the session sends, so at least the number of distinct transitions, and at least
  \<open>n - 1\<close> when no transition repeats.
\<close>

definition success_edges :: "'g backend \<Rightarrow> 'g graph_index \<Rightarrow> session \<Rightarrow> bool" where
  "success_edges B ix s =
     (let g = gi_graph (build B ix [s]); ts = tool_sequence s in
      (\<forall>i. i + 1 < length ts \<longrightarrow>
           (\<exists>a. edge_data B g (ts ! i) (ts ! (i + 1)) = Some a \<and> rel a = ''led_to_success''))
      \<and> edge_count B g = card (set (map edge_ends (session_edges s)))
      \<and> card (set (transitions s)) \<le> edge_count B g
      \<and> (distinct (transitions s) \<longrightarrow> length ts - 1 \<le> edge_count B g))"

definition repeat_session :: session where
  "repeat_session = \<lparr>session_id = ''s-repeat'', project = ''demo'', trajectory_type = ''sft_clean'',
     model = ''m'', start_time = ''t'',
     messages = [\<lparr>role = ''assistant'', content = '''',
        tool_uses = [\<lparr>tool = ''Bash'', input = ''''\<rparr>, \<lparr>tool = ''Bash'', input = ''''\<rparr>,
                     \<lparr>tool = ''Bash'', input = ''''\<rparr>]\<rparr>]\<rparr>"

text \<open>
  The score the specification gives a session identifier for a list of context nodes: for
  each context node, normalized, 2 points for each occurrence of the identifier in the
  contributor list of that node, and 1 point for each occurrence in the contributor list
  of each entry of the node's neighbour list (its successors followed by its predecessors;
  a node that is both is listed in each role). \<open>awarded\<close> is the sequence of identifiers in
  the order the points are given, \<open>first_seen\<close> the order of first appearance, \<open>ranked\<close>
  the score map sorted by descending score.
\<close>

definition contributors :: "'g graph_index \<Rightarrow> string \<Rightarrow> string list" where
  "contributors ix node = dict_get (node_to_sessions ix) node []"

definition awarded_by :: "'g backend \<Rightarrow> 'g graph_index \<Rightarrow> string \<Rightarrow> string list" where
  "awarded_by B ix node =
     contributors ix (normalize_node node)
     @ concat (map (contributors ix) (neighbors B (gi_graph ix) (normalize_node node)))"

definition awarded :: "'g backend \<Rightarrow> 'g graph_index \<Rightarrow> string list \<Rightarrow> string list" where
  "awarded B ix context_nodes = concat (map (awarded_by B ix) context_nodes)"

definition spec_score :: "'g backend \<Rightarrow> 'g graph_index \<Rightarrow> string list \<Rightarrow> string \<Rightarrow> int" where
  "spec_score B ix context_nodes sid =
     (\<Sum>node\<leftarrow>context_nodes.
        2 * int (count_list (contributors ix (normalize_node node)) sid)
        + (\<Sum>neighbor\<leftarrow>neighbors B (gi_graph ix) (normalize_node node).
             int (count_list (contributors ix neighbor) sid)))"

fun first_seen :: "'a list \<Rightarrow> 'a list" where
  "first_seen [] = []"
| "first_seen (x # xs) = x # filter (\<lambda>y. y \<noteq> x) (first_seen xs)"

definition ranked :: "'g backend \<Rightarrow> 'g graph_index \<Rightarrow> string list \<Rightarrow> (string \<times> int) list" where
  "ranked B ix context_nodes = sort_key (\<lambda>x. - snd x) (candidate_scores B ix context_nodes)"

text \<open>One award as a pair, and the awards of one context node in the order of the loops.\<close>

definition award_step :: "string \<times> int \<Rightarrow> (string \<times> int) list \<Rightarrow> (string \<times> int) list" where
  "award_step a scores = award (snd a) (fst a) scores"

definition node_awards :: "'g backend \<Rightarrow> 'g graph_index \<Rightarrow> string \<Rightarrow> (string \<times> int) list" where
  "node_awards B ix node =
     map (\<lambda>sid. (sid, 2)) (contributors ix (normalize_node node))
     @ concat (map (\<lambda>nb. map (\<lambda>sid. (sid, 1)) (contributors ix nb))
                 (neighbors B (gi_graph ix) (normalize_node node)))"

text \<open>
  The states an index reaches: any sequence of \<^verbatim>\<open>build\<close> and \<^verbatim>\<open>add_session\<close> calls on a
  fresh instance. \<open>contributors_known\<close>: every identifier in a contributor list is a key of
  the session map.
\<close>

datatype index_op = Build "session list" | Add session

definition apply_op :: "'g backend \<Rightarrow> index_op \<Rightarrow> 'g graph_index \<Rightarrow> 'g graph_index" where
  "apply_op B op ix = (case op of Build sessions \<Rightarrow> build B ix sessions | Add s \<Rightarrow> add_session B ix s)"

definition run_ops :: "'g backend \<Rightarrow> index_op list \<Rightarrow> 'g graph_index" where
  "run_ops B ops = fold (apply_op B) ops (new_index B)"

definition contributors_known :: "'g graph_index \<Rightarrow> bool" where
  "contributors_known ix =
     (\<forall>node sids. (node, sids) \<in> set (node_to_sessions ix) \<longrightarrow>
        set sids \<subseteq> fst ` set (gi_sessions ix))"

definition within :: "string set \<Rightarrow> (string \<times> string list) list \<Rightarrow> bool" where
  "within K nts = (\<forall>n l. (n, l) \<in> set nts \<longrightarrow> set l \<subseteq> K)"

text \<open>
  What a caller sees of an operation's result: the exception it raised, if any, the error
  code of an error envelope, the results of a success envelope, and the keyword arguments
  of the envelope. \<open>ranked_summaries\<close> are the summaries of a list of sessions with ranks
  from 1.
\<close>

definition raised :: "exn + 'a \<Rightarrow> exn option" where
  "raised r = (case r of Inl e \<Rightarrow> Some e | Inr v \<Rightarrow> None)"














text \<open>
  File references as the specification words them: the maximal runs of path characters
  (word characters, dots, slashes, hyphens) of the text that contain a slash or a dot, the
  first five.
\<close>

fun runs_from :: "string \<Rightarrow> string \<Rightarrow> string list" where
  "runs_from cur [] = (if cur = [] then [] else [cur])"
| "runs_from cur (c # cs) =
     (if is_path_char c then runs_from (cur @ [c]) cs
      else if cur = [] then runs_from [] cs
      else cur # runs_from [] cs)"

definition path_tokens :: "string \<Rightarrow> string list" where
  "path_tokens text = runs_from [] text"

definition spec_file_refs :: "string \<Rightarrow> string list" where
  "spec_file_refs text =
     take 5 (filter (\<lambda>m. CHR ''/'' \<in> set m \<or> CHR ''.'' \<in> set m) (path_tokens text))"

text \<open>
  What the pattern matches: a non-empty run of path characters, a dot, and one to six word
  characters. \<open>in_order ms t\<close>: the strings \<open>ms\<close> occur in \<open>t\<close> one after the other,
  without overlap. \<open>dot_ok s j\<close>: position \<open>j\<close> of \<open>s\<close> is a dot with a word character
  after it.
\<close>

definition file_shape :: "string \<Rightarrow> bool" where
  "file_shape m =
     (\<exists>p e. m = p @ ''.'' @ e \<and> p \<noteq> [] \<and> list_all is_path_char p
            \<and> e \<noteq> [] \<and> length e \<le> 6 \<and> list_all is_word_char e)"

fun in_order :: "string list \<Rightarrow> string \<Rightarrow> bool" where
  "in_order [] t = True"
| "in_order (m # ms) t = (\<exists>pre post. t = pre @ m @ post \<and> in_order ms post)"

definition dot_ok :: "string \<Rightarrow> nat \<Rightarrow> bool" where
  "dot_ok s j = (j < length s \<and> s ! j = CHR ''.'' \<and> 0 < ext_len (drop (Suc j) s))"




definition read_bash_session :: session where
  "read_bash_session = \<lparr>session_id = ''s1'', project = ''demo'', trajectory_type = ''sft_clean'',
     model = ''m'', start_time = ''t'',
     messages = [\<lparr>role = ''assistant'', content = '''',
        tool_uses = [\<lparr>tool = ''Read'', input = ''''\<rparr>, \<lparr>tool = ''Bash'', input = ''''\<rparr>]\<rparr>]\<rparr>"

definition bash_write_session :: session where
  "bash_write_session = \<lparr>session_id = ''s2'', project = ''demo'', trajectory_type = ''sft_clean'',
     model = ''m'', start_time = ''t'',
     messages = [\<lparr>role = ''assistant'', content = '''',
        tool_uses = [\<lparr>tool = ''Bash'', input = ''''\<rparr>, \<lparr>tool = ''Write'', input = ''''\<rparr>]\<rparr>]\<rparr>"

definition two_index :: "nx_graph graph_index" where
  "two_index = run_ops nx_backend [Build [read_bash_session], Add bash_write_session]"

definition twice_session :: session where
  "twice_session = \<lparr>session_id = ''s1'', project = ''demo'', trajectory_type = ''sft_clean'',
     model = ''m'', start_time = ''t'',
     messages = [\<lparr>role = ''assistant'', content = ''edit src/app.py'',
        tool_uses = [\<lparr>tool = ''Read'', input = ''src/app.py''\<rparr>, \<lparr>tool = ''Bash'', input = ''''\<rparr>,
                     \<lparr>tool = ''Read'', input = ''''\<rparr>, \<lparr>tool = ''Bash'', input = ''''\<rparr>]\<rparr>]\<rparr>"

definition failing_api :: "unit index_api" where
  "failing_api = \<lparr>api_build = (\<lambda>ss. ()), api_query = (\<lambda>i nodes m. []),
     api_has_stats = (\<lambda>i. True), api_stats = (\<lambda>i. Inl (Exception ''stats unavailable''))\<rparr>"

definition interrupted_api :: "unit index_api" where
  "interrupted_api = \<lparr>api_build = (\<lambda>ss. ()), api_query = (\<lambda>i nodes m. []),
     api_has_stats = (\<lambda>i. True),
     api_stats = (\<lambda>i. Inl (BaseExceptionOnly ''KeyboardInterrupt''))\<rparr>"

definition loaded_service :: "unit service" where
  "loaded_service = \<lparr>svc_sessions = Some [twice_session], svc_index = Some (),
     svc_project_count = 1, svc_refresh_count = 3, svc_last_refresh_ms = 1250\<rparr>"

section \<open>Node naming is a normal form\<close>

lemma lower_char_idem: "lower_char (lower_char c) = lower_char c"
  by (simp add: lower_char_def Let_def)

lemma is_space_lower_char: "is_space (lower_char c) = is_space c"
  by (auto simp add: lower_char_def is_space_def Let_def)

lemma lower_idem: "lower (lower s) = lower s"
  by (simp add: lower_def lower_char_idem)

lemma strip_lower: "strip (lower s) = lower (strip s)"
  by (simp add: strip_def lower_def rev_map dropWhile_map comp_def is_space_lower_char)

lemma dropWhile_self: "xs = [] \<or> \<not> P (hd xs) \<Longrightarrow> dropWhile P xs = xs"
  by (cases xs) auto

lemma hd_drop_trailing:
  "rev (dropWhile P (rev ys)) \<noteq> [] \<Longrightarrow> hd (rev (dropWhile P (rev ys))) = hd ys"
  by (metis Nil_is_rev_conv dropWhile_eq_Nil_conv dropWhile_last hd_rev last_rev)

lemma strip_idem: "strip (strip s) = strip s"
proof -
  define ys where "ys = dropWhile is_space s"
  define zs where "zs = rev (dropWhile is_space (rev ys))"
  have "zs = [] \<or> \<not> is_space (hd zs)"
  proof (cases "zs = []")
    case False
    then have "hd zs = hd ys" unfolding zs_def by (rule hd_drop_trailing)
    moreover from False have "ys \<noteq> []" by (auto simp: zs_def)
    then have "\<not> is_space (hd ys)" unfolding ys_def by (rule hd_dropWhile)
    ultimately show ?thesis by simp
  qed simp
  then have "dropWhile is_space zs = zs" by (rule dropWhile_self)
  moreover have "rev (dropWhile is_space (rev zs)) = zs"
    by (simp add: zs_def)
  ultimately show ?thesis by (simp add: strip_def ys_def [symmetric] zs_def [symmetric])
qed

lemma normalize_node_idem: "normalize_node (normalize_node s) = normalize_node s"
  by (simp add: normalize_node_def strip_lower strip_idem lower_idem)

lemma dropWhile_blanks: "dropWhile is_space (replicate n (CHR '' '') @ s) = dropWhile is_space s"
  by (induction n) (simp_all add: is_space_def)

lemma strip_padded: "strip (replicate n (CHR '' '') @ s @ replicate m (CHR '' '')) = strip s"
proof -
  let ?sp = "replicate m (CHR '' '')"
  have "rev (dropWhile is_space (rev (dropWhile is_space (s @ ?sp))))
        = rev (dropWhile is_space (rev (dropWhile is_space s)))"
  proof (cases "\<forall>c \<in> set s. is_space c")
    case True
    then have A: "dropWhile is_space s = []" by simp
    have "\<forall>c \<in> set (s @ ?sp). is_space c"
      using True by (auto simp: is_space_def)
    then have B: "dropWhile is_space (s @ ?sp) = []"
      by (simp only: dropWhile_eq_Nil_conv)
    show ?thesis unfolding A B by (rule refl)
  next
    case False
    then obtain c where "c \<in> set s" "\<not> is_space c" by blast
    then have "dropWhile is_space (s @ ?sp) = dropWhile is_space s @ ?sp"
      by (rule dropWhile_append1)
    then show ?thesis by (simp add: dropWhile_blanks)
  qed
  then show ?thesis
    unfolding strip_def dropWhile_blanks .
qed

lemmas text_eval = is_space_def lower_char_def lower_def strip_def is_word_char_def
  is_path_char_def char_of_def bit_Suc_0_iff normalize_node_def tool_node_def file_node_def
  error_node_def starts_with_def

text \<open>
  Claim C9. Node naming is idempotent and insensitive to case and to surrounding
  whitespace: \<open>tool_node s\<close> is \<open>''tool:''\<close> followed by the stripped, lower-cased name;
  naming an already normalized name gives the same identifier; lower-casing the name,
  stripping it or padding it with blanks does not change the identifier; and
  \<open>'' Bash ''\<close> and \<open>''bash''\<close> both give \<open>''tool:bash''\<close>. The identifier is a function
  of the text alone.
\<close>

theorem tool_node_normal_form:
  "tool_node s = ''tool:'' @ lower (strip s)
   \<and> normalize_node (normalize_node s) = normalize_node s
   \<and> tool_node (normalize_node s) = tool_node s
   \<and> tool_node (lower s) = tool_node s
   \<and> tool_node (strip s) = tool_node s
   \<and> tool_node (replicate n (CHR '' '') @ s @ replicate m (CHR '' '')) = tool_node s
   \<and> tool_node '' Bash '' = ''tool:bash''
   \<and> tool_node ''bash'' = ''tool:bash''"
proof -
  have a: "tool_node s = ''tool:'' @ lower (strip s)"
    by (simp add: tool_node_def normalize_node_def)
  have b: "tool_node (normalize_node s) = tool_node s"
    by (simp add: tool_node_def normalize_node_idem)
  have c: "tool_node (lower s) = tool_node s"
    by (simp add: tool_node_def normalize_node_def strip_lower lower_idem)
  have d: "tool_node (strip s) = tool_node s"
    by (simp add: tool_node_def normalize_node_def strip_idem)
  have e: "tool_node (replicate n (CHR '' '') @ s @ replicate m (CHR '' '')) = tool_node s"
    by (simp only: tool_node_def normalize_node_def strip_padded)
  have f: "tool_node '' Bash '' = ''tool:bash''" by (simp add: text_eval)
  have g: "tool_node ''bash'' = ''tool:bash''" by (simp add: text_eval)
  from a b c d e f g normalize_node_idem show ?thesis by blast
qed

section \<open>Edge weights accumulate\<close>

lemma adj_edge_append_empty: "adj_edge (adj @ [(n, [])]) x y = adj_edge adj x y"
  by (auto simp: adj_edge_def map_add_def split: option.splits)

lemma adj_edge_touch: "adj_edge (dd_touch n [] adj) x y = adj_edge adj x y"
  by (simp add: dd_touch_def adj_edge_append_empty split: option.splits)

lemma adj_edge_update:
  "adj_edge (AList.update u (AList.update v a (dict_get adj u [])) adj) x y
   = (if x = u \<and> y = v then Some a else adj_edge adj x y)"
  by (auto simp: adj_edge_def update_conv' dict_get_def split: option.splits)

lemma adj_size_append: "adj_size (xs @ ys) = adj_size xs + adj_size ys"
  by (simp add: adj_size_def)

lemma adj_size_touch: "adj_size (dd_touch n [] adj) = adj_size adj"
  by (simp add: dd_touch_def adj_size_def split: option.splits)

lemma length_row_update:
  "length (AList.update v a row) = (if map_of row v = None then Suc (length row) else length row)"
  by (induction row) auto

lemma adj_size_update_row:
  "adj_size (AList.update u row' adj) + (case map_of adj u of None \<Rightarrow> 0 | Some row \<Rightarrow> length row)
   = adj_size adj + length row'"
  by (induction adj) (auto simp: adj_size_def)

lemma adj_size_update:
  "adj_size (AList.update u (AList.update v a (dict_get adj u [])) adj)
   = (if adj_edge adj u v = None then Suc (adj_size adj) else adj_size adj)"
  using adj_size_update_row [of u "AList.update v a (dict_get adj u [])" adj]
  by (auto simp: length_row_update dict_get_def adj_edge_def split: option.splits)

lemma nx_edge_data:
  "adj_edge (nx_succ (nx_add_edge g u v r)) x y =
     (if x = u \<and> y = v
      then Some (case adj_edge (nx_succ g) u v of None \<Rightarrow> new_attrs r | Some a \<Rightarrow> bump_weight a)
      else adj_edge (nx_succ g) x y)"
  by (auto simp: nx_add_edge_def nx_DiGraph_add_edge_def nx_add_node_def Let_def adj_edge_update
      adj_edge_append_empty split: option.splits)

lemma nx_edge_count:
  "adj_size (nx_succ (nx_add_edge g u v r)) =
     (if adj_edge (nx_succ g) u v = None then Suc (adj_size (nx_succ g)) else adj_size (nx_succ g))"
  by (auto simp: nx_add_edge_def nx_DiGraph_add_edge_def nx_add_node_def Let_def adj_size_update
      adj_edge_append_empty adj_size_append adj_size_def[of "[(_, [])]"] split: option.splits)

lemma edge_laws_nx: "edge_laws nx_backend"
  unfolding edge_laws_def
  by (simp add: nx_backend_def nx_number_of_edges_def nx_edge_data nx_edge_count)

lemma pure_row_update:
  "(case map_of row dst of Some a \<Rightarrow> AList.update dst (bump_weight a) row
     | None \<Rightarrow> AList.update dst (new_attrs r) row)
   = AList.update dst (case map_of row dst of None \<Rightarrow> new_attrs r | Some a \<Rightarrow> bump_weight a) row"
  by (simp split: option.splits)

lemma dict_get_touch: "dict_get (dd_touch k [] d) k [] = dict_get d k []"
  by (auto simp: dict_get_def dd_touch_def map_add_def split: option.splits)

lemma update_fresh: "map_of d k = None \<Longrightarrow> AList.update k v (d @ [(k, x)]) = d @ [(k, v)]"
  by (induction d) (auto split: if_splits)

lemma update_fresh': "map_of d k = None \<Longrightarrow> AList.update k v d = d @ [(k, v)]"
  by (induction d) (auto split: if_splits)

lemma update_touch: "AList.update k v (dd_touch k x d) = AList.update k v d"
  by (auto simp: dd_touch_def update_fresh update_fresh' split: option.splits)

lemma map_of_dict_get: "map_of (dict_get adj u []) v = adj_edge adj u v"
  by (simp add: dict_get_def adj_edge_def split: option.splits)

lemma pure_edge_data:
  "adj_edge (p_out (pure_add_edge g u v r)) x y =
     (if x = u \<and> y = v
      then Some (case adj_edge (p_out g) u v of None \<Rightarrow> new_attrs r | Some a \<Rightarrow> bump_weight a)
      else adj_edge (p_out g) x y)"
  by (simp add: pure_add_edge_def Let_def pure_row_update dict_get_touch update_touch
      adj_edge_touch adj_edge_update map_of_dict_get)

lemma pure_edge_count:
  "adj_size (p_out (pure_add_edge g u v r)) =
     (if adj_edge (p_out g) u v = None then Suc (adj_size (p_out g)) else adj_size (p_out g))"
  by (simp add: pure_add_edge_def Let_def pure_row_update dict_get_touch update_touch
      adj_size_touch adj_size_update map_of_dict_get)

lemma edge_laws_pure: "edge_laws (pure_backend ord)"
  unfolding edge_laws_def
  by (simp add: pure_backend_def pure_number_of_edges_def pure_edge_data pure_edge_count)

lemma add_edges_Nil: "add_edges B [] g = g"
  by (simp add: add_edges_def)

lemma add_edges_append: "add_edges B (xs @ ys) g = add_edges B ys (add_edges B xs g)"
  by (simp add: add_edges_def)

lemma add_edges_map:
  "add_edges B (map h xs) g = fold (\<lambda>x g. add_edge B g (fst (h x)) (fst (snd (h x))) (snd (snd (h x)))) xs g"
  by (simp add: add_edges_def fold_map comp_def)

lemma tool_nodes_of_Cons: "tool_nodes_of (tu # tus) = tool_nodes_of [tu] @ tool_nodes_of tus"
  by (simp add: tool_nodes_of_def)

lemma tool_nodes_of_append: "tool_nodes_of (xs @ ys) = tool_nodes_of xs @ tool_nodes_of ys"
  by (simp add: tool_nodes_of_def)

lemma index_tool_use_edges:
  "index_tool_use B tu st = (add_edges B (tool_use_edges tu) (fst st), snd st @ tool_nodes_of [tu])"
  by (cases st)
     (simp add: index_tool_use_def tool_use_edges_def tool_nodes_of_def Let_def add_edges_map
        add_edges_Nil)

lemma fold_index_tool_use:
  "fold (index_tool_use B) tus st
   = (add_edges B (concat (map tool_use_edges tus)) (fst st), snd st @ tool_nodes_of tus)"
proof (induction tus arbitrary: st)
  case Nil
  then show ?case by (simp add: add_edges_def tool_nodes_of_def)
next
  case (Cons tu tus)
  show ?case
    apply (simp only: fold_simps Cons.IH)
    apply (simp add: index_tool_use_edges add_edges_append tool_nodes_of_Cons [of tu tus])
    done
qed

lemma index_message_edges:
  "index_message B msg st
   = (add_edges B (message_edges msg) (fst st), snd st @ tool_nodes_of (tool_uses msg))"
  by (simp add: index_message_def message_edges_def Let_def fold_index_tool_use add_edges_append
      add_edges_map add_edges_def [of B "[]"])

lemma fold_index_message:
  "fold (index_message B) msgs st
   = (add_edges B (concat (map message_edges msgs)) (fst st),
      snd st @ tool_nodes_of (concat (map tool_uses msgs)))"
proof (induction msgs arbitrary: st)
  case Nil
  then show ?case by (simp add: add_edges_def tool_nodes_of_def)
next
  case (Cons m ms)
  show ?case
    apply (simp only: fold_simps Cons.IH)
    apply (simp add: index_message_edges add_edges_append tool_nodes_of_append)
    done
qed

lemma pairs_by_index:
  "map (\<lambda>i. (ts ! i, ts ! (i + 1))) [0 ..< length ts - 1] = zip ts (tl ts)"
  by (rule nth_equalityI) (auto simp: nth_tl)

lemma fold_transitions:
  "fold (\<lambda>i g. add_edge B g (ts ! i) (ts ! (i + 1)) r) [0 ..< length ts - 1] g
   = add_edges B (map (\<lambda>p. (fst p, snd p, r)) (zip ts (tl ts))) g"
proof -
  have "fold (\<lambda>i g. add_edge B g (ts ! i) (ts ! (i + 1)) r) [0 ..< length ts - 1] g
        = add_edges B (map (\<lambda>p. (fst p, snd p, r)) (map (\<lambda>i. (ts ! i, ts ! (i + 1))) [0 ..< length ts - 1])) g"
    by (simp add: add_edges_def fold_map comp_def)
  then show ?thesis by (simp only: pairs_by_index)
qed

lemma index_session_edges: "index_session B g s = add_edges B (session_edges s) g"
proof -
  have ts: "snd (fold (index_message B) (messages s) (g, [])) = tool_sequence s"
    by (simp add: fold_index_message tool_sequence_def)
  have g1: "fst (fold (index_message B) (messages s) (g, []))
            = add_edges B (concat (map message_edges (messages s))) g"
    by (simp add: fold_index_message)
  show ?thesis
    unfolding index_session_def Let_def ts g1 fold_transitions
    by (simp add: session_edges_def add_edges_append transitions_def transition_rel_def)
qed

lemma law_data:
  "edge_laws B \<Longrightarrow> edge_data B (add_edge B g u v r) x y =
     (if x = u \<and> y = v
      then Some (case edge_data B g u v of None \<Rightarrow> new_attrs r | Some a \<Rightarrow> bump_weight a)
      else edge_data B g x y)"
  unfolding edge_laws_def by blast

lemma law_count:
  "edge_laws B \<Longrightarrow> edge_count B (add_edge B g u v r) =
     (if edge_data B g u v = None then Suc (edge_count B g) else edge_count B g)"
  unfolding edge_laws_def by blast

lemma add_edges_Cons:
  "add_edges B (e # es) g = add_edges B es (add_edge B g (fst e) (fst (snd e)) (snd (snd e)))"
  by (simp add: add_edges_def)

lemma add_edges_weighted:
  assumes "edge_laws B"
  shows "weighted (edge_data B g u v) \<or> (u, v) \<in> set (map edge_ends es)
         \<Longrightarrow> weighted (edge_data B (add_edges B es g) u v)"
proof (induction es arbitrary: g)
  case Nil
  then show ?case by (simp add: add_edges_def)
next
  case (Cons e es)
  let ?g = "add_edge B g (fst e) (fst (snd e)) (snd (snd e))"
  have "weighted (edge_data B ?g u v) \<or> (u, v) \<in> set (map edge_ends es)"
    using Cons.prems
    by (auto simp: law_data [OF assms] weighted_def edge_ends_def bump_weight_def new_attrs_def
        split: option.splits)
  then show ?case unfolding add_edges_Cons by (rule Cons.IH)
qed

lemma add_edges_weight:
  assumes "edge_laws B"
  shows "edge_data B g u v = Some a \<Longrightarrow> weight a = Some w
         \<Longrightarrow> edge_data B (add_edges B es g) u v
             = Some \<lparr>weight = Some (w + int (count_list (map edge_ends es) (u, v))), rel = rel a\<rparr>"
proof (induction es arbitrary: g a w)
  case Nil
  then show ?case by (simp add: add_edges_def)
next
  case (Cons e es)
  let ?g = "add_edge B g (fst e) (fst (snd e)) (snd (snd e))"
  show ?case
  proof (cases "edge_ends e = (u, v)")
    case True
    then have "edge_data B ?g u v = Some (bump_weight a)"
      using Cons.prems by (simp add: law_data [OF assms] edge_ends_def)
    moreover have "weight (bump_weight a) = Some (w + 1)" "rel (bump_weight a) = rel a"
      using Cons.prems by (simp_all add: bump_weight_def)
    ultimately show ?thesis
      using Cons.IH [of ?g "bump_weight a" "w + 1"] True
      by (simp add: add_edges_Cons)
  next
    case False
    then have "edge_data B ?g u v = Some a"
      using Cons.prems by (auto simp: law_data [OF assms] edge_ends_def)
    then show ?thesis
      using Cons.IH [of ?g a w] Cons.prems False by (simp add: add_edges_Cons)
  qed
qed

lemma add_edges_count_present:
  assumes "edge_laws B"
  shows "\<forall>e \<in> set es. edge_data B g (fst e) (fst (snd e)) \<noteq> None
         \<Longrightarrow> edge_count B (add_edges B es g) = edge_count B g"
proof (induction es arbitrary: g)
  case Nil
  then show ?case by (simp add: add_edges_def)
next
  case (Cons e es)
  let ?g = "add_edge B g (fst e) (fst (snd e)) (snd (snd e))"
  have "\<forall>e' \<in> set es. edge_data B ?g (fst e') (fst (snd e')) \<noteq> None"
    using Cons.prems by (auto simp: law_data [OF assms])
  then have "edge_count B (add_edges B es ?g) = edge_count B ?g" by (rule Cons.IH)
  also have "\<dots> = edge_count B g"
    using Cons.prems by (simp add: law_count [OF assms])
  finally show ?case by (simp add: add_edges_Cons)
qed

lemma edge_laws_accumulate:
  assumes L: "edge_laws B"
  shows "accumulates_weights B"
proof -
  have p1: "edge_data B (add_edge B g src dst r) src dst = Some \<lparr>weight = Some (w + 1), rel = rel a\<rparr>
            \<and> edge_count B (add_edge B g src dst r) = edge_count B g"
    if "edge_data B g src dst = Some a \<and> weight a = Some w" for g src dst r a w
    using that by (simp add: law_data [OF L] law_count [OF L] bump_weight_def)
  have p2: "edge_data B (add_edge B g src dst r) src dst = Some \<lparr>weight = Some 1, rel = r\<rparr>
            \<and> edge_count B (add_edge B g src dst r) = edge_count B g + 1"
    if "edge_data B g src dst = None" for g src dst r
    using that by (simp add: law_data [OF L] law_count [OF L] new_attrs_def)
  have p3: "edge_data B (add_edge B g src dst r) x y = edge_data B g x y"
    if "(x, y) \<noteq> (src, dst)" for g src dst r x y
    using that by (auto simp: law_data [OF L])
  have p4: "\<exists>a w. edge_data B (index_session B g s) u v = Some a \<and> weight a = Some w
              \<and> edge_data B (index_session B (index_session B g s) s) u v
                  = Some \<lparr>weight = Some (w + int (count_list (map edge_ends (session_edges s)) (u, v))),
                          rel = rel a\<rparr>"
    if m: "(u, v) \<in> set (map edge_ends (session_edges s))" for g s u v
  proof -
    have "weighted (edge_data B (add_edges B (session_edges s) g) u v)"
      using m by (intro add_edges_weighted [OF L]) simp
    then obtain a w where aw: "edge_data B (add_edges B (session_edges s) g) u v = Some a"
        "weight a = Some w"
      by (auto simp: weighted_def split: option.splits)
    from add_edges_weight [OF L aw, of "session_edges s"] aw
    show ?thesis by (simp add: index_session_edges)
  qed
  have p5: "edge_count B (index_session B (index_session B g s) s)
            = edge_count B (index_session B g s)" for g s
  proof -
    have "\<forall>e \<in> set (session_edges s).
            edge_data B (add_edges B (session_edges s) g) (fst e) (fst (snd e)) \<noteq> None"
    proof
      fix e assume "e \<in> set (session_edges s)"
      then have "(fst e, fst (snd e)) \<in> set (map edge_ends (session_edges s))"
        by (auto simp: edge_ends_def)
      then have "weighted (edge_data B (add_edges B (session_edges s) g) (fst e) (fst (snd e)))"
        by (intro add_edges_weighted [OF L]) simp
      then show "edge_data B (add_edges B (session_edges s) g) (fst e) (fst (snd e)) \<noteq> None"
        by (auto simp: weighted_def split: option.splits)
    qed
    then show ?thesis
      unfolding index_session_edges by (rule add_edges_count_present [OF L])
  qed
  have q1: "\<forall>g src dst r a w.
         edge_data B g src dst = Some a \<and> weight a = Some w \<longrightarrow>
           edge_data B (add_edge B g src dst r) src dst = Some \<lparr>weight = Some (w + 1), rel = rel a\<rparr>
           \<and> edge_count B (add_edge B g src dst r) = edge_count B g"
    by (intro allI impI) (rule p1)
  have q2: "\<forall>g src dst r.
         edge_data B g src dst = None \<longrightarrow>
           edge_data B (add_edge B g src dst r) src dst = Some \<lparr>weight = Some 1, rel = r\<rparr>
           \<and> edge_count B (add_edge B g src dst r) = edge_count B g + 1"
    by (intro allI impI) (rule p2)
  have q3: "\<forall>g src dst r x y.
         (x, y) \<noteq> (src, dst) \<longrightarrow>
           edge_data B (add_edge B g src dst r) x y = edge_data B g x y"
    by (intro allI impI) (rule p3)
  have q4: "\<forall>g s u v.
         (u, v) \<in> set (map edge_ends (session_edges s)) \<longrightarrow>
           (\<exists>a w. edge_data B (index_session B g s) u v = Some a \<and> weight a = Some w
              \<and> edge_data B (index_session B (index_session B g s) s) u v
                  = Some \<lparr>weight = Some (w + int (count_list (map edge_ends (session_edges s)) (u, v))),
                          rel = rel a\<rparr>)"
    by (intro allI impI) (rule p4)
  have q5: "\<forall>g s. edge_count B (index_session B (index_session B g s) s)
                 = edge_count B (index_session B g s)"
    by (intro allI) (rule p5)
  show ?thesis
    unfolding accumulates_weights_def by (intro conjI q1 q2 q3 q4 q5)
qed

text \<open>
  Claim C2. In both graph backends, for every graph state and every pair of nodes: adding
  an edge that exists raises its integer weight by exactly one, creates no second edge
  (the edge count is unchanged) and keeps the relation tag of its creation; adding an
  absent edge creates it with weight 1; no other edge changes. Consequently, indexing
  the same session a second time raises the weight of each edge of the session by one
  for each time the session sends that edge (by exactly one for a transition the session
  makes once), and adds no edge.
\<close>

theorem edge_weights_accumulate:
  "accumulates_weights nx_backend \<and> accumulates_weights (pure_backend ord)"
proof
  show "accumulates_weights nx_backend"
    using edge_laws_nx by (rule edge_laws_accumulate)
  show "accumulates_weights (pure_backend ord)"
    using edge_laws_pure by (rule edge_laws_accumulate)
qed

theorem edge_weights_accumulate_witness:
  "edge_data nx_backend (index_session nx_backend nx_make_graph twice_session) ''tool:read'' ''tool:bash''
     = Some \<lparr>weight = Some 2, rel = ''led_to_success''\<rparr>
   \<and> edge_data nx_backend
        (index_session nx_backend (index_session nx_backend nx_make_graph twice_session) twice_session)
        ''tool:read'' ''tool:bash''
     = Some \<lparr>weight = Some 4, rel = ''led_to_success''\<rparr>
   \<and> edge_data (pure_backend rev)
        (add_edge (pure_backend rev) (add_edge (pure_backend rev) pure_make_graph ''file:a.py'' ''tool:read'' ''accessed_by'')
           ''file:a.py'' ''tool:read'' ''other'')
        ''file:a.py'' ''tool:read''
     = Some \<lparr>weight = Some 2, rel = ''accessed_by''\<rparr>"
proof -
  let ?s = twice_session
  let ?g1 = "index_session nx_backend nx_make_graph ?s"
  have m: "(''tool:read'', ''tool:bash'') \<in> set (map edge_ends (session_edges ?s))"
    by code_simp
  have c: "count_list (map edge_ends (session_edges ?s)) (''tool:read'', ''tool:bash'') = 2"
    by code_simp
  have e1: "edge_data nx_backend ?g1 ''tool:read'' ''tool:bash''
            = Some \<lparr>weight = Some 2, rel = ''led_to_success''\<rparr>"
    by code_simp
  from edge_weights_accumulate have nx: "accumulates_weights nx_backend"
    and pu: "accumulates_weights (pure_backend rev)" by simp_all
  from nx have "\<forall>g s u v.
         (u, v) \<in> set (map edge_ends (session_edges s)) \<longrightarrow>
           (\<exists>a w. edge_data nx_backend (index_session nx_backend g s) u v = Some a \<and> weight a = Some w
              \<and> edge_data nx_backend (index_session nx_backend (index_session nx_backend g s) s) u v
                  = Some \<lparr>weight = Some (w + int (count_list (map edge_ends (session_edges s)) (u, v))),
                          rel = rel a\<rparr>)"
    unfolding accumulates_weights_def by (elim conjE)
  with m obtain a w where aw: "edge_data nx_backend ?g1 ''tool:read'' ''tool:bash'' = Some a"
      "weight a = Some w"
      "edge_data nx_backend (index_session nx_backend ?g1 ?s) ''tool:read'' ''tool:bash''
       = Some \<lparr>weight = Some (w + int (count_list (map edge_ends (session_edges ?s))
                                        (''tool:read'', ''tool:bash''))), rel = rel a\<rparr>"
    by (elim allE [where x = nx_make_graph] allE [where x = "?s"] allE) blast
  from aw(1,2) e1 have "w = 2" "rel a = ''led_to_success''" by auto
  with aw(3) c have e2: "edge_data nx_backend (index_session nx_backend ?g1 ?s) ''tool:read'' ''tool:bash''
     = Some \<lparr>weight = Some 4, rel = ''led_to_success''\<rparr>" by simp
  let ?p1 = "add_edge (pure_backend rev) pure_make_graph ''file:a.py'' ''tool:read'' ''accessed_by''"
  have p0: "edge_data (pure_backend rev) pure_make_graph ''file:a.py'' ''tool:read'' = None"
    by code_simp
  from pu p0 have "edge_data (pure_backend rev) ?p1 ''file:a.py'' ''tool:read''
                   = Some \<lparr>weight = Some 1, rel = ''accessed_by''\<rparr>"
    unfolding accumulates_weights_def by blast
  with pu have e3: "edge_data (pure_backend rev) (add_edge (pure_backend rev) ?p1 ''file:a.py'' ''tool:read'' ''other'')
                  ''file:a.py'' ''tool:read'' = Some \<lparr>weight = Some 2, rel = ''accessed_by''\<rparr>"
    unfolding accumulates_weights_def by fastforce
  from e1 e2 e3 show ?thesis by blast
qed

section \<open>Rebuilding replaces the index\<close>

lemma keys_fold_add_session:
  "fst ` set (gi_sessions (fold (\<lambda>s ix'. add_session B ix' s) ss ix))
   = fst ` set (gi_sessions ix) \<union> session_id ` set ss"
  by (induction ss arbitrary: ix) (auto simp: add_session_def Let_def dom_update)

text \<open>
  Claim C5. \<open>build\<close> discards the prior state (graph, node-to-sessions index, session map)
  and then adds the given sessions in order: its result is the fold of \<open>add_session\<close>
  from a fresh index, whatever the index held before; the stored identifiers are exactly
  those of the given sessions; and \<open>build []\<close> on any index gives zero sessions, with the
  node and edge counts of an empty graph, in both backends.
\<close>

theorem build_replaces_state:
  "build B ix sessions = fold (\<lambda>s ix'. add_session B ix' s) sessions (new_index B)
   \<and> build B ix sessions = build B ix' sessions
   \<and> fst ` set (gi_sessions (build B ix sessions)) = session_id ` set sessions
   \<and> build B ix [] = new_index B
   \<and> st_sessions (stats B (build B ix [])) = 0
   \<and> stats nx_backend (build nx_backend jx [])
       = \<lparr>st_nodes = 0, st_edges = 0, st_sessions = 0, st_networkx_available = True\<rparr>
   \<and> stats (pure_backend ord) (build (pure_backend ord) kx [])
       = \<lparr>st_nodes = 0, st_edges = 0, st_sessions = 0, st_networkx_available = False\<rparr>"
proof -
  have reset: "ix\<lparr>gi_graph := make_graph B, node_to_sessions := [], gi_sessions := []\<rparr> = new_index B"
    for ix :: "'a graph_index"
    by (simp add: new_index_def)
  have a: "build B ix sessions = fold (\<lambda>s ix'. add_session B ix' s) sessions (new_index B)"
    for ix :: "'a graph_index"
    by (simp add: build_def reset)
  have b: "fst ` set (gi_sessions (build B ix sessions)) = session_id ` set sessions"
    by (simp add: a keys_fold_add_session new_index_def)
  have c: "stats nx_backend (build nx_backend jx [])
       = \<lparr>st_nodes = 0, st_edges = 0, st_sessions = 0, st_networkx_available = True\<rparr>"
    by (simp add: build_def stats_def nx_backend_def nx_make_graph_def nx_number_of_nodes_def
        nx_number_of_edges_def adj_size_def)
  have d: "stats (pure_backend ord) (build (pure_backend ord) kx [])
       = \<lparr>st_nodes = 0, st_edges = 0, st_sessions = 0, st_networkx_available = False\<rparr>"
    by (simp add: build_def stats_def pure_backend_def pure_make_graph_def pure_number_of_nodes_def
        pure_number_of_edges_def adj_size_def)
  have e: "st_sessions (stats B (build B ix [])) = 0"
    by (simp add: build_def stats_def)
  from a [of ix] a [of ix'] b c d e show ?thesis by (simp add: build_def reset)
qed

section \<open>Statistics failures do not reach the caller\<close>

lemma gather_stats_caught:
  "api_stats api i = Inl (Exception e) \<or> api_stats api i = Inr PyOther
   \<Longrightarrow> gather_stats api (Some i) = Inr []"
  by (auto simp: gather_stats_def)

lemma gather_stats_raises:
  "gather_stats api index = Inl x \<Longrightarrow>
     \<exists>i e. index = Some i \<and> api_has_stats api i \<and> api_stats api i = Inl x \<and> x = BaseExceptionOnly e"
  by (auto simp: gather_stats_def split: option.splits if_splits sum.splits exn.splits py_value.splits)

lemma gather_stats_propagates:
  "api_has_stats api i \<Longrightarrow> api_stats api i = Inl (BaseExceptionOnly e)
   \<Longrightarrow> gather_stats api (Some i) = Inl (BaseExceptionOnly e)"
  by (simp add: gather_stats_def)

lemma gather_stats_returns:
  "\<forall>i e. index = Some i \<longrightarrow> api_stats api i \<noteq> Inl (BaseExceptionOnly e)
   \<Longrightarrow> \<exists>d. gather_stats api index = Inr d"
  by (cases "gather_stats api index") (auto dest!: gather_stats_raises)

lemma meta_of_stats:
  "meta api svc =
     (case gather_stats api (svc_index svc) of
        Inl e \<Rightarrow> Inl e
      | Inr st \<Rightarrow> Inr \<lparr>session_count = length (case svc_sessions svc of None \<Rightarrow> [] | Some ss \<Rightarrow> ss),
                     project_count = svc_project_count svc, refresh_count = svc_refresh_count svc,
                     last_refresh_ms = svc_last_refresh_ms svc, index_stats = st\<rparr>)"
  by (simp add: meta_def Let_def)

lemma meta_raises:
  "raised (meta api svc) = Some x \<Longrightarrow>
     \<exists>i e. svc_index svc = Some i \<and> api_has_stats api i \<and> api_stats api i = Inl x
           \<and> x = BaseExceptionOnly e"
proof -
  assume "raised (meta api svc) = Some x"
  then have "gather_stats api (svc_index svc) = Inl x"
    by (auto simp: meta_of_stats raised_def split: sum.splits)
  then show ?thesis by (rule gather_stats_raises)
qed


text \<open>
  Claim C8, as amended. When \<open>stats()\<close> raises an instance of \<^verbatim>\<open>Exception\<close>, or returns
  something that is not a dict, \<open>meta\<close> returns a snapshot with the session count, the
  project count, the refresh count and the last refresh duration, and an empty statistics
  object. \<open>meta\<close> returns such a snapshot, with some statistics object, whenever \<open>stats()\<close>
  raises nothing outside \<^verbatim>\<open>Exception\<close>. What \<open>meta\<close> raises is what \<open>stats()\<close> raised
  outside \<^verbatim>\<open>Exception\<close>, and every such raise of \<open>stats()\<close> propagates out of \<open>meta\<close>.
\<close>

theorem meta_swallows_stats_failure:
  "(svc_index svc = Some i \<and> (api_stats api i = Inl (Exception e) \<or> api_stats api i = Inr PyOther) \<longrightarrow>
        meta api svc = Inr \<lparr>session_count = length (case svc_sessions svc of None \<Rightarrow> [] | Some ss \<Rightarrow> ss),
          project_count = svc_project_count svc, refresh_count = svc_refresh_count svc,
          last_refresh_ms = svc_last_refresh_ms svc, index_stats = []\<rparr>)
   \<and> ((\<forall>j e'. svc_index svc = Some j \<longrightarrow> api_stats api j \<noteq> Inl (BaseExceptionOnly e')) \<longrightarrow>
        (\<exists>d. meta api svc = Inr \<lparr>session_count = length (case svc_sessions svc of None \<Rightarrow> [] | Some ss \<Rightarrow> ss),
          project_count = svc_project_count svc, refresh_count = svc_refresh_count svc,
          last_refresh_ms = svc_last_refresh_ms svc, index_stats = d\<rparr>))
   \<and> (raised (meta api svc) = Some x \<longrightarrow>
        (\<exists>j e'. svc_index svc = Some j \<and> api_has_stats api j \<and> api_stats api j = Inl x
               \<and> x = BaseExceptionOnly e'))
   \<and> (svc_index svc = Some i \<and> api_has_stats api i \<and> api_stats api i = Inl (BaseExceptionOnly e) \<longrightarrow>
        meta api svc = Inl (BaseExceptionOnly e))"
proof (intro conjI impI)
  assume "svc_index svc = Some i \<and> (api_stats api i = Inl (Exception e) \<or> api_stats api i = Inr PyOther)"
  then have "gather_stats api (svc_index svc) = Inr []"
    using gather_stats_caught [of api i e] by simp
  then show "meta api svc = Inr \<lparr>session_count = length (case svc_sessions svc of None \<Rightarrow> [] | Some ss \<Rightarrow> ss),
          project_count = svc_project_count svc, refresh_count = svc_refresh_count svc,
          last_refresh_ms = svc_last_refresh_ms svc, index_stats = []\<rparr>"
    by (simp add: meta_of_stats)
next
  assume "\<forall>j e'. svc_index svc = Some j \<longrightarrow> api_stats api j \<noteq> Inl (BaseExceptionOnly e')"
  from gather_stats_returns [OF this]
  obtain d where "gather_stats api (svc_index svc) = Inr d" by blast
  then show "\<exists>d. meta api svc = Inr \<lparr>session_count = length (case svc_sessions svc of None \<Rightarrow> [] | Some ss \<Rightarrow> ss),
        project_count = svc_project_count svc, refresh_count = svc_refresh_count svc,
        last_refresh_ms = svc_last_refresh_ms svc, index_stats = d\<rparr>"
    by (simp add: meta_of_stats)
next
  assume "raised (meta api svc) = Some x"
  then show "\<exists>j e'. svc_index svc = Some j \<and> api_has_stats api j \<and> api_stats api j = Inl x
               \<and> x = BaseExceptionOnly e'"
    by (rule meta_raises)
next
  assume "svc_index svc = Some i \<and> api_has_stats api i \<and> api_stats api i = Inl (BaseExceptionOnly e)"
  then have "gather_stats api (svc_index svc) = Inl (BaseExceptionOnly e)"
    using gather_stats_propagates [of api i e] by simp
  then show "meta api svc = Inl (BaseExceptionOnly e)" by (simp add: meta_of_stats)
qed

theorem meta_swallows_stats_failure_witness:
  "svc_index loaded_service = Some ()
   \<and> api_stats failing_api () = Inl (Exception ''stats unavailable'')
   \<and> meta failing_api loaded_service
       = Inr \<lparr>session_count = 1, project_count = 1, refresh_count = 3, last_refresh_ms = 1250,
              index_stats = []\<rparr>"
proof -
  have h: "svc_index loaded_service = Some ()"
    "api_stats failing_api () = Inl (Exception ''stats unavailable'')"
    by (simp_all add: loaded_service_def failing_api_def)
  note t = meta_swallows_stats_failure
    [of loaded_service "()" failing_api "''stats unavailable''" "Exception ''x''"]
  from t h have "meta failing_api loaded_service
       = Inr \<lparr>session_count = length (case svc_sessions loaded_service of None \<Rightarrow> [] | Some ss \<Rightarrow> ss),
          project_count = svc_project_count loaded_service,
          refresh_count = svc_refresh_count loaded_service,
          last_refresh_ms = svc_last_refresh_ms loaded_service, index_stats = []\<rparr>"
    by blast
  with h show ?thesis by (simp add: loaded_service_def)
qed

text \<open>
  The handler names \<^verbatim>\<open>Exception\<close>, so the property does not extend to every raise of
  \<open>stats()\<close>: a \<^verbatim>\<open>KeyboardInterrupt\<close> raised there propagates out of \<open>meta\<close>, and no
  snapshot is returned.
\<close>

theorem interrupt_propagates_counterexample:
  "svc_index loaded_service = Some ()
   \<and> api_stats interrupted_api () = Inl (BaseExceptionOnly ''KeyboardInterrupt'')
   \<and> meta interrupted_api loaded_service = Inl (BaseExceptionOnly ''KeyboardInterrupt'')"
  by (simp add: loaded_service_def interrupted_api_def meta_def gather_stats_def)






section \<open>Edges of a successful session\<close>

lemma empty_laws_nx: "empty_laws nx_backend"
  by (simp add: empty_laws_def nx_backend_def nx_make_graph_def adj_edge_def
      nx_number_of_edges_def adj_size_def)

lemma empty_laws_pure: "empty_laws (pure_backend ord)"
  by (simp add: empty_laws_def pure_backend_def pure_make_graph_def adj_edge_def
      pure_number_of_edges_def adj_size_def)

lemma edge_set_add:
  assumes "edge_laws B"
  shows "edge_set B (add_edge B g u v r) = insert (u, v) (edge_set B g)"
  by (auto simp: edge_set_def law_data [OF assms])

lemma edge_set_add_edges:
  assumes "edge_laws B"
  shows "edge_set B (add_edges B es g) = edge_set B g \<union> set (map edge_ends es)"
proof (induction es arbitrary: g)
  case Nil
  then show ?case by (simp add: add_edges_Nil)
next
  case (Cons e es)
  show ?case
    by (simp add: add_edges_Cons Cons.IH edge_set_add [OF assms] edge_ends_def)
qed

lemma edge_count_add_edges:
  assumes "edge_laws B"
  shows "finite (edge_set B g) \<Longrightarrow> edge_count B g = card (edge_set B g)
         \<Longrightarrow> edge_count B (add_edges B es g) = card (edge_set B (add_edges B es g))"
proof (induction es arbitrary: g)
  case Nil
  then show ?case by (simp add: add_edges_Nil)
next
  case (Cons e es)
  let ?g = "add_edge B g (fst e) (fst (snd e)) (snd (snd e))"
  have f: "finite (edge_set B ?g)"
    using Cons.prems by (simp add: edge_set_add [OF assms])
  have "edge_count B ?g = card (edge_set B ?g)"
  proof (cases "edge_data B g (fst e) (fst (snd e)) = None")
    case True
    then have "(fst e, fst (snd e)) \<notin> edge_set B g" by (simp add: edge_set_def)
    then show ?thesis
      using Cons.prems True by (simp add: edge_set_add [OF assms] law_count [OF assms])
  next
    case False
    then have "(fst e, fst (snd e)) \<in> edge_set B g" by (simp add: edge_set_def)
    then show ?thesis
      using Cons.prems False
      by (simp add: edge_set_add [OF assms] law_count [OF assms] insert_absorb)
  qed
  with f show ?case unfolding add_edges_Cons by (rule Cons.IH)
qed

lemma edge_count_from_empty:
  assumes "edge_laws B" "empty_laws B"
  shows "edge_count B (add_edges B es (make_graph B)) = card (set (map edge_ends es))"
proof -
  have e: "edge_set B (make_graph B) = {}"
    using assms(2) by (simp add: edge_set_def empty_laws_def)
  then have "edge_count B (add_edges B es (make_graph B))
             = card (edge_set B (add_edges B es (make_graph B)))"
    using assms(2) by (intro edge_count_add_edges [OF assms(1)]) (simp_all add: empty_laws_def)
  then show ?thesis by (simp add: edge_set_add_edges [OF assms(1)] e)
qed

lemma add_edges_rel:
  assumes "edge_laws B"
  shows "\<forall>e \<in> set es. edge_ends e = (u, v) \<longrightarrow> snd (snd e) = r
         \<Longrightarrow> (case edge_data B g u v of None \<Rightarrow> True | Some a \<Rightarrow> rel a = r)
         \<Longrightarrow> (case edge_data B (add_edges B es g) u v of None \<Rightarrow> True | Some a \<Rightarrow> rel a = r)"
proof (induction es arbitrary: g)
  case Nil
  then show ?case by (simp add: add_edges_Nil)
next
  case (Cons e es)
  let ?g = "add_edge B g (fst e) (fst (snd e)) (snd (snd e))"
  have "case edge_data B ?g u v of None \<Rightarrow> True | Some a \<Rightarrow> rel a = r"
    using Cons.prems
    by (auto simp: law_data [OF assms] edge_ends_def new_attrs_def bump_weight_def
        split: option.splits)
  moreover have "\<forall>e \<in> set es. edge_ends e = (u, v) \<longrightarrow> snd (snd e) = r"
    using Cons.prems(1) by simp
  ultimately show ?case unfolding add_edges_Cons by (intro Cons.IH)
qed

lemma tool_node_head: "hd (tool_node n) = CHR ''t''"
  by (simp add: tool_node_def)

lemma tool_nodes_of_head: "t \<in> set (tool_nodes_of tus) \<Longrightarrow> hd t = CHR ''t''"
proof -
  assume "t \<in> set (tool_nodes_of tus)"
  then obtain n where "t = tool_node n" unfolding tool_nodes_of_def by auto
  then show ?thesis by (simp only: tool_node_head)
qed

lemma message_edges_source: "e \<in> set (message_edges msg) \<Longrightarrow> hd (fst e) \<noteq> CHR ''t''"
  by (auto simp: message_edges_def tool_use_edges_def file_node_def error_node_def
      split: if_splits)

lemma transitions_nth:
  "i + 1 < length (tool_sequence s) \<Longrightarrow>
     (tool_sequence s ! i, tool_sequence s ! (i + 1)) \<in> set (transitions s)"
proof -
  assume a: "i + 1 < length (tool_sequence s)"
  let ?ts = "tool_sequence s"
  have "i < length (zip ?ts (tl ?ts))" using a by simp
  moreover have "zip ?ts (tl ?ts) ! i = (?ts ! i, ?ts ! (i + 1))"
    using a by (simp add: nth_tl)
  ultimately show ?thesis unfolding transitions_def by (metis nth_mem)
qed

lemma transitions_subset: "set (transitions s) \<subseteq> set (map edge_ends (session_edges s))"
  by (auto simp: session_edges_def edge_ends_def image_iff)

lemma length_transitions: "length (transitions s) = length (tool_sequence s) - 1"
  by (simp add: transitions_def)

lemma success_edges_generic:
  assumes L: "edge_laws B" and E: "empty_laws B"
    and ok: "trajectory_type s \<noteq> ''correction_loop''"
  shows "success_edges B ix s"
proof -
  let ?g = "gi_graph (build B ix [s])"
  let ?ts = "tool_sequence s"
  have g: "?g = add_edges B (session_edges s) (make_graph B)"
    by (simp add: build_def add_session_def Let_def index_session_edges)
  have cnt: "edge_count B ?g = card (set (map edge_ends (session_edges s)))"
    unfolding g by (rule edge_count_from_empty [OF L E])
  have "card (set (transitions s)) \<le> card (set (map edge_ends (session_edges s)))"
    by (intro card_mono transitions_subset) simp
  then have c2: "card (set (transitions s)) \<le> edge_count B ?g" by (simp add: cnt)
  have c3: "distinct (transitions s) \<longrightarrow> length ?ts - 1 \<le> edge_count B ?g"
    using c2 by (auto simp: distinct_card length_transitions)
  have tag: "\<exists>a. edge_data B ?g (?ts ! i) (?ts ! (i + 1)) = Some a \<and> rel a = ''led_to_success''"
    if i: "i + 1 < length ?ts" for i
  proof -
    let ?u = "?ts ! i" and ?v = "?ts ! (i + 1)"
    have m: "(?u, ?v) \<in> set (map edge_ends (session_edges s))"
      using transitions_nth [OF i] transitions_subset by blast
    have "weighted (edge_data B (add_edges B (session_edges s) (make_graph B)) ?u ?v)"
      using m by (intro add_edges_weighted [OF L]) simp
    then obtain a where a: "edge_data B ?g ?u ?v = Some a"
      unfolding g by (auto simp: weighted_def split: option.splits)
    have "?u \<in> set ?ts" using i by simp
    then have hu: "hd ?u = CHR ''t''"
      unfolding tool_sequence_def by (rule tool_nodes_of_head)
    have "\<forall>e \<in> set (session_edges s). edge_ends e = (?u, ?v) \<longrightarrow> snd (snd e) = ''led_to_success''"
    proof (intro ballI impI)
      fix e assume e: "e \<in> set (session_edges s)" and ee: "edge_ends e = (?u, ?v)"
      from ee have "fst e = ?u" by (simp add: edge_ends_def)
      with hu have "hd (fst e) = CHR ''t''" by simp
      with e message_edges_source have "snd (snd e) = transition_rel s"
        by (fastforce simp: session_edges_def)
      then show "snd (snd e) = ''led_to_success''" using ok by (simp add: transition_rel_def)
    qed
    moreover have "case edge_data B (make_graph B) ?u ?v of None \<Rightarrow> True
                   | Some a \<Rightarrow> rel a = ''led_to_success''"
      using E by (simp add: empty_laws_def)
    ultimately have "case edge_data B ?g ?u ?v of None \<Rightarrow> True | Some a \<Rightarrow> rel a = ''led_to_success''"
      unfolding g by (rule add_edges_rel [OF L])
    with a show ?thesis by simp
  qed
  show ?thesis
    unfolding success_edges_def Let_def using tag cnt c2 c3 by blast
qed

text \<open>
  Claim C3, as amended. For every session whose trajectory type is not
  \<open>''correction_loop''\<close>, with tool sequence \<open>[t1, ..., tn]\<close>, building an index from the
  single session (on either backend, from any prior index) gives an edge from \<open>ti\<close> to
  \<open>t(i+1)\<close> for every \<open>i\<close>, tagged \<open>''led_to_success''\<close>. The edge count is the number of
  distinct (source, destination) pairs the session sends: at least the number of distinct
  transitions, and at least \<open>n - 1\<close> when the transitions are pairwise distinct.
\<close>

theorem successful_session_edges:
  "trajectory_type s \<noteq> ''correction_loop'' \<Longrightarrow>
     success_edges nx_backend ix s \<and> success_edges (pure_backend ord) jx s"
  using success_edges_generic [OF edge_laws_nx empty_laws_nx]
    success_edges_generic [OF edge_laws_pure empty_laws_pure]
  by blast

theorem successful_session_edges_witness:
  "trajectory_type twice_session \<noteq> ''correction_loop''
   \<and> tool_sequence twice_session = [''tool:read'', ''tool:bash'', ''tool:read'', ''tool:bash'']
   \<and> success_edges nx_backend (new_index nx_backend) twice_session
   \<and> success_edges (pure_backend rev) (new_index (pure_backend rev)) twice_session"
proof -
  have h: "trajectory_type twice_session \<noteq> ''correction_loop''" by (simp add: twice_session_def)
  have t: "tool_sequence twice_session = [''tool:read'', ''tool:bash'', ''tool:read'', ''tool:bash'']"
    by code_simp
  from successful_session_edges [OF h] h t show ?thesis by blast
qed

text \<open>
  The bound \<open>n - 1\<close> on the edge count, as first stated, fails when a transition repeats:
  a session that calls \<open>Bash\<close> three times has \<open>n = 3\<close> and one edge, of weight 2.
\<close>

lemma build_single_graph:
  "gi_graph (build B ix [s]) = add_edges B (session_edges s) (make_graph B)"
  by (simp add: build_def add_session_def Let_def index_session_edges)

lemma repeat_ends:
  "map edge_ends (session_edges repeat_session) = [(''tool:bash'', ''tool:bash''), (''tool:bash'', ''tool:bash'')]"
  by code_simp

theorem repeated_transition_counterexample:
  "trajectory_type repeat_session \<noteq> ''correction_loop''
   \<and> tool_sequence repeat_session = [''tool:bash'', ''tool:bash'', ''tool:bash'']
   \<and> edge_count nx_backend (gi_graph (build nx_backend (new_index nx_backend) [repeat_session])) = 1
   \<and> edge_count (pure_backend rev) (gi_graph (build (pure_backend rev) (new_index (pure_backend rev)) [repeat_session])) = 1
   \<and> \<not> (length (tool_sequence repeat_session) - 1
          \<le> edge_count nx_backend (gi_graph (build nx_backend (new_index nx_backend) [repeat_session])))"
proof -
  have a: "trajectory_type repeat_session \<noteq> ''correction_loop''"
    by (simp add: repeat_session_def)
  have b: "tool_sequence repeat_session = [''tool:bash'', ''tool:bash'', ''tool:bash'']"
    by code_simp
  have c: "edge_count nx_backend (gi_graph (build nx_backend (new_index nx_backend) [repeat_session])) = 1"
    by (simp add: build_single_graph edge_count_from_empty [OF edge_laws_nx empty_laws_nx] repeat_ends)
  have d: "edge_count (pure_backend rev) (gi_graph (build (pure_backend rev) (new_index (pure_backend rev)) [repeat_session])) = 1"
    by (simp add: build_single_graph edge_count_from_empty [OF edge_laws_pure empty_laws_pure] repeat_ends)
  from a b c d show ?thesis by simp
qed

section \<open>Scores and ranking of a query\<close>

lemma set_first_seen: "set (first_seen xs) = set xs"
  by (induction xs) auto

lemma distinct_first_seen: "distinct (first_seen xs)"
  by (induction xs) (auto simp: set_first_seen)

lemma fold_award_map: "fold (award p) xs sc = fold award_step (map (\<lambda>sid. (sid, p)) xs) sc"
  by (induction xs arbitrary: sc) (simp_all add: award_step_def)

lemma fold_award_step_concat:
  "fold (\<lambda>nb sc. fold award_step (h nb) sc) nbs sc = fold award_step (concat (map h nbs)) sc"
  by (induction nbs arbitrary: sc) simp_all

lemma score_node_awards: "score_node B ix node sc = fold award_step (node_awards B ix node) sc"
  by (simp add: score_node_def Let_def node_awards_def contributors_def fold_award_map
      fold_award_step_concat)

lemma fold_score_node:
  "fold (score_node B ix) nodes sc = fold award_step (concat (map (node_awards B ix) nodes)) sc"
proof (induction nodes arbitrary: sc)
  case Nil
  then show ?case by simp
next
  case (Cons n ns)
  show ?case
    apply (simp only: fold_simps Cons.IH)
    apply (simp add: score_node_awards)
    done
qed

lemma keys_award_step:
  "map fst (award_step a sc)
   = (if fst a \<in> set (map fst sc) then map fst sc else map fst sc @ [fst a])"
  by (simp add: award_step_def award_def update_keys)

lemma keys_fold_award:
  "map fst (fold award_step aw sc)
   = map fst sc @ filter (\<lambda>k. k \<notin> set (map fst sc)) (first_seen (map fst aw))"
proof (induction aw arbitrary: sc)
  case Nil
  then show ?case by simp
next
  case (Cons a aw)
  show ?case
  proof (cases "fst a \<in> set (map fst sc)")
    case True
    then have "filter (\<lambda>k. k \<notin> set (map fst sc)) (filter (\<lambda>y. y \<noteq> fst a) (first_seen (map fst aw)))
               = filter (\<lambda>k. k \<notin> set (map fst sc)) (first_seen (map fst aw))"
      by (auto simp: filter_filter intro!: filter_cong)
    with True show ?thesis
      by (simp add: Cons.IH keys_award_step)
  next
    case False
    have "filter (\<lambda>k. k \<notin> set (map fst sc) \<and> k \<noteq> fst a) (first_seen (map fst aw))
          = filter (\<lambda>k. k \<notin> set (map fst sc)) (filter (\<lambda>y. y \<noteq> fst a) (first_seen (map fst aw)))"
      by (auto simp: filter_filter intro!: filter_cong)
    with False show ?thesis
      by (simp add: Cons.IH keys_award_step)
  qed
qed

lemma dict_get_award_step:
  "dict_get (award_step a sc) k 0 = dict_get sc k 0 + (if fst a = k then snd a else 0)"
  by (simp add: award_step_def award_def dict_get_def update_conv')

lemma dict_get_Nil: "dict_get [] k d = d"
  by (simp add: dict_get_def)

lemma dict_get_fold_award:
  "dict_get (fold award_step aw sc) k 0
   = dict_get sc k 0 + sum_list (map snd (filter (\<lambda>a. fst a = k) aw))"
  by (induction aw arbitrary: sc) (simp_all add: dict_get_award_step)

lemma distinct_fold_award:
  "distinct (map fst sc) \<Longrightarrow> distinct (map fst (fold award_step aw sc))"
  by (induction aw arbitrary: sc) (simp_all add: award_step_def award_def distinct_update)

lemma alist_by_keys:
  "distinct (map fst al) \<Longrightarrow> al = map (\<lambda>k. (k, dict_get al k d)) (map fst al)"
proof (induction al)
  case Nil
  then show ?case by simp
next
  case (Cons p al)
  then have "al = map (\<lambda>k. (k, dict_get al k d)) (map fst al)" by simp
  moreover have "map (\<lambda>k. (k, dict_get al k d)) (map fst al)
                 = map (\<lambda>k. (k, dict_get (p # al) k d)) (map fst al)"
  proof (intro map_cong refl)
    fix k assume "k \<in> set (map fst al)"
    with Cons.prems have "k \<noteq> fst p" by force
    then show "(k, dict_get al k d) = (k, dict_get (p # al) k d)"
      by (cases p) (simp add: dict_get_def)
  qed
  ultimately show ?case by (cases p) (simp add: dict_get_def)
qed

lemma sum_points: "sum_list (map snd (filter (\<lambda>a. fst a = k) (map (\<lambda>sid. (sid, p)) xs)))
                   = p * int (count_list xs k)"
  by (induction xs) (simp_all add: algebra_simps)

lemma sum_points_concat:
  "sum_list (map snd (filter (\<lambda>a. fst a = k) (concat (map (\<lambda>nb. map (\<lambda>sid. (sid, 1)) (c nb)) nbs))))
   = (\<Sum>nb\<leftarrow>nbs. int (count_list (c nb) k))"
  by (induction nbs) (simp_all add: sum_points)

lemma sum_node_awards:
  "sum_list (map snd (filter (\<lambda>a. fst a = k) (concat (map (node_awards B ix) nodes))))
   = spec_score B ix nodes k"
  by (induction nodes)
     (simp_all add: spec_score_def node_awards_def sum_points sum_points_concat)

lemma keys_node_awards: "map fst (concat (map (node_awards B ix) nodes)) = awarded B ix nodes"
  by (induction nodes)
     (simp_all add: awarded_def awarded_by_def node_awards_def map_concat comp_def)

lemma candidate_scores_spec:
  "candidate_scores B ix nodes
   = map (\<lambda>sid. (sid, spec_score B ix nodes sid)) (first_seen (awarded B ix nodes))"
proof -
  let ?aw = "concat (map (node_awards B ix) nodes)"
  have cs: "candidate_scores B ix nodes = fold award_step ?aw []"
    by (simp add: candidate_scores_def fold_score_node)
  have k: "map fst (fold award_step ?aw []) = first_seen (awarded B ix nodes)"
    by (simp add: keys_fold_award keys_node_awards)
  have d: "distinct (map fst (fold award_step ?aw []))"
    by (rule distinct_fold_award) simp
  have v: "dict_get (fold award_step ?aw []) sid 0 = spec_score B ix nodes sid" for sid
    by (simp add: dict_get_fold_award sum_node_awards dict_get_Nil)
  from alist_by_keys [OF d, of 0] show ?thesis
    by (simp only: cs k v)
qed

lemma fold_collect:
  "fold (\<lambda>x results. case f x of Some s \<Rightarrow> results @ [s] | None \<Rightarrow> results) xs acc
   = acc @ List.map_filter f xs"
  by (induction xs arbitrary: acc) (simp_all add: map_filter_simps split: option.splits)

lemma query_map_filter:
  "nodes \<noteq> [] \<Longrightarrow>
     query B ix nodes m
     = List.map_filter (\<lambda>x. map_of (gi_sessions ix) (fst x)) (slice_to m (ranked B ix nodes))"
  by (simp add: query_def Let_def ranked_def fold_collect)

lemma length_map_filter_le: "length (List.map_filter f xs) \<le> length xs"
  by (simp add: map_filter_def)

lemma length_slice_to: "0 \<le> m \<Longrightarrow> length (slice_to m xs) \<le> nat m"
  by (simp add: slice_to_def)

lemma query_bound: "0 \<le> m \<Longrightarrow> length (query B ix nodes m) \<le> nat m"
proof (cases "nodes = []")
  case True
  then show ?thesis by (simp add: query_def)
next
  case False
  assume m: "0 \<le> m"
  have "length (query B ix nodes m) \<le> length (slice_to m (ranked B ix nodes))"
    by (simp add: query_map_filter [OF False] length_map_filter_le)
  also have "\<dots> \<le> nat m" using m by (rule length_slice_to)
  finally show ?thesis .
qed

text \<open>
  Claim C1, as amended. \<open>query\<close> returns the empty list when the context nodes are empty,
  for every index state. Otherwise the score map holds, in order of first award, each
  awarded session identifier with its score: 2 points for each occurrence in the
  contributor list of a normalized context node and 1 point for each occurrence in the
  contributor list of each entry of the node's neighbour list (successors followed by
  predecessors), added up over all context nodes. The ranking is sorted by descending
  score and keeps entries of equal score in the order of the score map (a stable sort);
  the result is the records of the first \<open>max_results\<close> ranked entries, skipping
  identifiers without a record. For \<open>max_results \<ge> 0\<close> the result has at most
  \<open>max_results\<close> records.
\<close>

theorem query_ranking:
  "query B ix [] m = []
   \<and> candidate_scores B ix nodes
       = map (\<lambda>sid. (sid, spec_score B ix nodes sid)) (first_seen (awarded B ix nodes))
   \<and> sorted (map (\<lambda>x. - snd x) (ranked B ix nodes))
   \<and> (\<forall>k. filter (\<lambda>x. snd x = k) (ranked B ix nodes)
            = filter (\<lambda>x. snd x = k) (candidate_scores B ix nodes))
   \<and> (nodes \<noteq> [] \<longrightarrow>
        query B ix nodes m
        = List.map_filter (\<lambda>x. map_of (gi_sessions ix) (fst x)) (slice_to m (ranked B ix nodes)))
   \<and> (0 \<le> m \<longrightarrow> length (query B ix nodes m) \<le> nat m)"
proof -
  have a: "query B ix [] m = []" by (simp add: query_def)
  have s: "sorted (map (\<lambda>x. - snd x) (ranked B ix nodes))"
    unfolding ranked_def by (rule sorted_sort_key)
  have st: "filter (\<lambda>x. snd x = k) (ranked B ix nodes)
            = filter (\<lambda>x. snd x = k) (candidate_scores B ix nodes)" for k
    using sort_key_stable [of "\<lambda>x. - snd x" "- k" "candidate_scores B ix nodes"]
    by (simp add: ranked_def)
  from a s st candidate_scores_spec [of B ix nodes] query_map_filter [of nodes B ix m]
    query_bound [of m B ix nodes]
  show ?thesis by blast
qed

theorem query_ranking_witness:
  "[''tool:read''] \<noteq> [] \<and> (0::int) \<le> 5
   \<and> candidate_scores nx_backend two_index [''tool:read''] = [(''s1'', 3), (''s2'', 1)]
   \<and> spec_score nx_backend two_index [''tool:read''] ''s1'' = 3
   \<and> spec_score nx_backend two_index [''tool:read''] ''s2'' = 1
   \<and> map session_id (query nx_backend two_index [''tool:read''] 5) = [''s1'', ''s2'']
   \<and> length (query nx_backend two_index [''tool:read''] 5) \<le> 5
   \<and> filter (\<lambda>x. snd x = 3) (ranked nx_backend two_index [''tool:bash'']) = [(''s1'', 3), (''s2'', 3)]"
proof -
  have cs: "candidate_scores nx_backend two_index [''tool:read''] = [(''s1'', 3), (''s2'', 1)]"
    by code_simp
  have fs: "first_seen (awarded nx_backend two_index [''tool:read'']) = [''s1'', ''s2'']"
    by code_simp
  have q: "map session_id (query nx_backend two_index [''tool:read''] 5) = [''s1'', ''s2'']"
    by code_simp
  have cb: "candidate_scores nx_backend two_index [''tool:bash''] = [(''s1'', 3), (''s2'', 3)]"
    by code_simp
  note t = query_ranking [of nx_backend two_index 5 "[''tool:read'']"]
  from t cs fs have sc: "spec_score nx_backend two_index [''tool:read''] ''s1'' = 3"
      "spec_score nx_backend two_index [''tool:read''] ''s2'' = 1"
    by simp_all
  from t have "(0::int) \<le> 5 \<longrightarrow> length (query nx_backend two_index [''tool:read''] 5) \<le> nat 5"
    by (elim conjE) assumption
  then have len: "length (query nx_backend two_index [''tool:read''] 5) \<le> 5" by simp
  from query_ranking [of nx_backend two_index 5 "[''tool:bash'']"] cb
  have tie: "filter (\<lambda>x. snd x = 3) (ranked nx_backend two_index [''tool:bash'']) = [(''s1'', 3), (''s2'', 3)]"
    by simp
  from cs sc q len tie show ?thesis by simp
qed

text \<open>
  The bound fails for a negative \<open>max_results\<close>, which the slice \<^verbatim>\<open>ranked[:max_results]\<close>
  counts from the end: with two candidates and \<open>max_results = -1\<close> one record is returned.
\<close>

theorem negative_limit_counterexample:
  "map session_id (query nx_backend two_index [''tool:bash''] (- 1)) = [''s1'']
   \<and> \<not> int (length (query nx_backend two_index [''tool:bash''] (- 1))) \<le> - 1"
proof -
  have q: "map session_id (query nx_backend two_index [''tool:bash''] (- 1)) = [''s1'']"
    by code_simp
  then have "length (map session_id (query nx_backend two_index [''tool:bash''] (- 1))) = 1"
    by simp
  then have "length (query nx_backend two_index [''tool:bash''] (- 1)) = 1" by simp
  with q show ?thesis by simp
qed

section \<open>Every contributor has a record\<close>

lemma set_update_subset: "set (AList.update k v al) \<subseteq> insert (k, v) (set al)"
  by (induction al) auto

lemma within_touch: "within K nts \<Longrightarrow> within K (dd_touch n [] nts)"
  by (auto simp: within_def dd_touch_def split: option.splits)

lemma within_dict_get: "within K nts \<Longrightarrow> set (dict_get nts n []) \<subseteq> K"
  by (auto simp: within_def dict_get_def split: option.splits dest: map_of_SomeD [OF sym])

lemma within_update: "within K nts \<Longrightarrow> set l \<subseteq> K \<Longrightarrow> within K (AList.update n l nts)"
  using set_update_subset [of n l nts] by (fastforce simp: within_def)

lemma record_tool_within:
  "sid \<in> K \<Longrightarrow> within K nts \<Longrightarrow> within K (record_tool sid tu nts)"
proof (cases "strip (tool tu) = []")
  case True
  assume "within K nts"
  with True show ?thesis by (simp add: record_tool_def)
next
  case False
  assume sid: "sid \<in> K" and w: "within K nts"
  let ?n = "tool_node (strip (tool tu))"
  let ?nts1 = "dd_touch ?n [] nts"
  have w1: "within K ?nts1" using w by (rule within_touch)
  then have "set (dict_get ?nts1 ?n []) \<subseteq> K" by (rule within_dict_get)
  with sid have "set (dict_get ?nts1 ?n [] @ [sid]) \<subseteq> K" by simp
  with w1 have "within K (AList.update ?n (dict_get ?nts1 ?n [] @ [sid]) ?nts1)"
    by (rule within_update)
  with w1 False show ?thesis by (simp add: record_tool_def Let_def)
qed

lemma fold_record_tool_within:
  "sid \<in> K \<Longrightarrow> within K nts \<Longrightarrow> within K (fold (record_tool sid) tus nts)"
  by (induction tus arbitrary: nts) (simp_all add: record_tool_within)

lemma fold_messages_within:
  "sid \<in> K \<Longrightarrow> within K nts
   \<Longrightarrow> within K (fold (\<lambda>msg nts. fold (record_tool sid) (tool_uses msg) nts) msgs nts)"
  by (induction msgs arbitrary: nts) (simp_all add: fold_record_tool_within)

lemma within_mono: "within K nts \<Longrightarrow> K \<subseteq> K' \<Longrightarrow> within K' nts"
  by (auto simp: within_def)

lemma known_within: "contributors_known ix = within (fst ` set (gi_sessions ix)) (node_to_sessions ix)"
  by (simp add: contributors_known_def within_def)

lemma add_session_known:
  "contributors_known ix \<Longrightarrow> contributors_known (add_session B ix s)"
proof -
  assume "contributors_known ix"
  then have "within (insert (session_id s) (fst ` set (gi_sessions ix))) (node_to_sessions ix)"
    unfolding known_within by (rule within_mono) auto
  then have "within (insert (session_id s) (fst ` set (gi_sessions ix)))
               (fold (\<lambda>msg nts. fold (record_tool (session_id s)) (tool_uses msg) nts) (messages s)
                  (node_to_sessions ix))"
    by (intro fold_messages_within) simp_all
  then show ?thesis
    by (simp add: known_within add_session_def Let_def dom_update)
qed

lemma fold_add_session_known:
  "contributors_known ix \<Longrightarrow> contributors_known (fold (\<lambda>s ix'. add_session B ix' s) ss ix)"
  by (induction ss arbitrary: ix) (simp_all add: add_session_known)

lemma build_known: "contributors_known (build B ix ss)"
  unfolding build_def by (rule fold_add_session_known) (simp add: contributors_known_def)

lemma apply_op_known: "contributors_known ix \<Longrightarrow> contributors_known (apply_op B op ix)"
  by (cases op) (simp_all add: apply_op_def build_known add_session_known)

lemma fold_apply_op_known:
  "contributors_known ix \<Longrightarrow> contributors_known (fold (apply_op B) ops ix)"
  by (induction ops arbitrary: ix) (simp_all add: apply_op_known)

lemma run_ops_known: "contributors_known (run_ops B ops)"
  unfolding run_ops_def by (rule fold_apply_op_known) (simp add: contributors_known_def new_index_def)

lemma contributors_entry:
  "sid \<in> set (contributors ix k) \<Longrightarrow> \<exists>l. (k, l) \<in> set (node_to_sessions ix) \<and> sid \<in> set l"
  by (auto simp: contributors_def dict_get_def split: option.splits dest: map_of_SomeD [OF sym])

lemma awarded_entry:
  "sid \<in> set (awarded B ix nodes) \<Longrightarrow> \<exists>n l. (n, l) \<in> set (node_to_sessions ix) \<and> sid \<in> set l"
  by (auto simp: awarded_def awarded_by_def dest!: contributors_entry)

lemma candidate_keys: "x \<in> set (candidate_scores B ix nodes) \<Longrightarrow> fst x \<in> set (awarded B ix nodes)"
  by (auto simp: candidate_scores_spec set_first_seen)

lemma candidate_has_record:
  assumes "contributors_known ix" "x \<in> set (candidate_scores B ix nodes)"
  shows "map_of (gi_sessions ix) (fst x) \<noteq> None"
proof -
  from candidate_keys [OF assms(2)] awarded_entry
  obtain n l where "(n, l) \<in> set (node_to_sessions ix)" "fst x \<in> set l" by blast
  with assms(1) have "fst x \<in> fst ` set (gi_sessions ix)"
    by (auto simp: contributors_known_def)
  then show ?thesis by (simp add: map_of_eq_None_iff)
qed

lemma map_filter_all_Some:
  "\<forall>x \<in> set xs. f x \<noteq> None \<Longrightarrow> map Some (List.map_filter f xs) = map f xs"
  by (induction xs) (auto simp: map_filter_simps split: option.splits)

lemma query_no_skip:
  assumes k: "contributors_known ix" and n: "nodes \<noteq> []" and m: "0 \<le> m"
  shows "map Some (query B ix nodes m)
           = map (\<lambda>x. map_of (gi_sessions ix) (fst x)) (take (nat m) (ranked B ix nodes))"
    and "length (query B ix nodes m) = min (nat m) (length (candidate_scores B ix nodes))"
proof -
  let ?f = "\<lambda>x. map_of (gi_sessions ix) (fst x)"
  have all: "\<forall>x \<in> set (take (nat m) (ranked B ix nodes)). ?f x \<noteq> None"
  proof
    fix x assume "x \<in> set (take (nat m) (ranked B ix nodes))"
    then have "x \<in> set (ranked B ix nodes)" by (rule in_set_takeD)
    then have "x \<in> set (candidate_scores B ix nodes)" by (simp add: ranked_def)
    then show "?f x \<noteq> None" by (rule candidate_has_record [OF k])
  qed
  have q: "query B ix nodes m = List.map_filter ?f (take (nat m) (ranked B ix nodes))"
    using m by (simp add: query_map_filter [OF n] slice_to_def)
  show a: "map Some (query B ix nodes m) = map ?f (take (nat m) (ranked B ix nodes))"
    unfolding q by (rule map_filter_all_Some [OF all])
  have "length (query B ix nodes m) = length (map Some (query B ix nodes m))" by simp
  also have "\<dots> = min (nat m) (length (candidate_scores B ix nodes))"
    unfolding a by (simp add: ranked_def min.commute)
  finally show "length (query B ix nodes m) = min (nat m) (length (candidate_scores B ix nodes))" .
qed

text \<open>
  Claim C10, as amended. After any sequence of \<open>build\<close> and \<open>add_session\<close> calls on a fresh
  index, every session identifier in a contributor list is a key of the session map.
  Hence every scored candidate has a record, the branch of \<open>query\<close> that skips a missing
  record is never taken, and for \<open>max_results \<ge> 0\<close> the query returns exactly the records
  of the first \<open>min max_results (number of scored candidates)\<close> ranked candidates.
\<close>

theorem contributors_have_records:
  "contributors_known (run_ops B ops)
   \<and> (\<forall>x \<in> set (candidate_scores B (run_ops B ops) nodes).
         map_of (gi_sessions (run_ops B ops)) (fst x) \<noteq> None)
   \<and> (nodes \<noteq> [] \<and> 0 \<le> m \<longrightarrow>
        map Some (query B (run_ops B ops) nodes m)
          = map (\<lambda>x. map_of (gi_sessions (run_ops B ops)) (fst x))
              (take (nat m) (ranked B (run_ops B ops) nodes))
        \<and> length (query B (run_ops B ops) nodes m)
          = min (nat m) (length (candidate_scores B (run_ops B ops) nodes)))"
proof -
  let ?ix = "run_ops B ops"
  have k: "contributors_known ?ix" by (rule run_ops_known)
  have r: "\<forall>x \<in> set (candidate_scores B ?ix nodes). map_of (gi_sessions ?ix) (fst x) \<noteq> None"
    using candidate_has_record [OF k] by blast
  have q: "nodes \<noteq> [] \<and> 0 \<le> m \<longrightarrow>
        map Some (query B ?ix nodes m)
          = map (\<lambda>x. map_of (gi_sessions ?ix) (fst x)) (take (nat m) (ranked B ?ix nodes))
        \<and> length (query B ?ix nodes m) = min (nat m) (length (candidate_scores B ?ix nodes))"
    using query_no_skip [OF k] by blast
  from k r q show ?thesis by (intro conjI)
qed

theorem contributors_have_records_witness:
  "[''tool:bash''] \<noteq> [] \<and> (0::int) \<le> 1
   \<and> contributors_known two_index
   \<and> length (candidate_scores nx_backend two_index [''tool:bash'']) = 2
   \<and> length (query nx_backend two_index [''tool:bash''] 1) = 1
   \<and> map session_id (query nx_backend two_index [''tool:bash''] 1) = [''s1'']"
proof -
  have cb: "candidate_scores nx_backend two_index [''tool:bash''] = [(''s1'', 3), (''s2'', 3)]"
    by code_simp
  have q: "map session_id (query nx_backend two_index [''tool:bash''] 1) = [''s1'']"
    by code_simp
  note t = contributors_have_records
    [of nx_backend "[Build [read_bash_session], Add bash_write_session]" "[''tool:bash'']" 1]
  from t have k: "contributors_known two_index" unfolding two_index_def by (elim conjE) assumption
  from t have "[''tool:bash''] \<noteq> [] \<and> (0::int) \<le> 1 \<longrightarrow>
      length (query nx_backend two_index [''tool:bash''] 1)
      = min (nat 1) (length (candidate_scores nx_backend two_index [''tool:bash'']))"
    unfolding two_index_def by blast
  with cb have l: "length (query nx_backend two_index [''tool:bash''] 1) = 1"
    by simp
  from k l q cb show ?thesis by simp
qed

text \<open>
  For a negative \<open>max_results\<close> the number of records is not that minimum: with two
  candidates and \<open>max_results = -1\<close> the query returns one record.
\<close>

theorem negative_limit_count_counterexample:
  "length (candidate_scores nx_backend two_index [''tool:read'']) = 2
   \<and> length (query nx_backend two_index [''tool:read''] (- 1)) = 1
   \<and> int (length (query nx_backend two_index [''tool:read''] (- 1)))
       \<noteq> min (- 1) (int (length (candidate_scores nx_backend two_index [''tool:read''])))"
proof -
  have cs: "candidate_scores nx_backend two_index [''tool:read''] = [(''s1'', 3), (''s2'', 1)]"
    by code_simp
  have q: "map session_id (query nx_backend two_index [''tool:read''] (- 1)) = [''s1'']"
    by code_simp
  then have "length (map session_id (query nx_backend two_index [''tool:read''] (- 1))) = 1"
    by simp
  then have "length (query nx_backend two_index [''tool:read''] (- 1)) = 1" by simp
  with cs show ?thesis by simp
qed

section \<open>Searching past solutions\<close>
























section \<open>Finding similar sessions\<close>




















section \<open>File references\<close>

lemma backtrack_Suc:
  "backtrack s (Suc k) = (if dot_ok s (Suc k) then Some (Suc (Suc k) + ext_len (drop (Suc (Suc k)) s))
                          else backtrack s k)"
  by (simp add: dot_ok_def)

lemma backtrack_SomeD:
  "backtrack s k = Some l \<Longrightarrow>
     \<exists>d. 1 \<le> d \<and> d \<le> k \<and> dot_ok s d \<and> l = Suc d + ext_len (drop (Suc d) s)"
proof (induction k)
  case 0
  then show ?case by simp
next
  case (Suc k)
  show ?case
  proof (cases "dot_ok s (Suc k)")
    case True
    with Suc.prems have "l = Suc (Suc k) + ext_len (drop (Suc (Suc k)) s)"
      by (simp only: backtrack_Suc if_True option.inject)
    with True show ?thesis by (intro exI [of _ "Suc k"]) simp
  next
    case False
    with Suc.prems have "backtrack s k = Some l" by (simp only: backtrack_Suc if_False)
    from Suc.IH [OF this] show ?thesis by (auto intro: le_SucI)
  qed
qed

lemma take_within_takeWhile:
  assumes "n \<le> length (takeWhile P xs)"
  shows "take n xs = take n (takeWhile P xs)"
proof -
  have "take n (takeWhile P xs @ dropWhile P xs)
        = take n (takeWhile P xs) @ take (n - length (takeWhile P xs)) (dropWhile P xs)"
    by (rule take_append)
  with assms show ?thesis by (simp only: takeWhile_dropWhile_id) simp
qed

lemma take_ext:
  "take (ext_len r) r = take (ext_len r) (takeWhile is_word_char r)"
  by (rule take_within_takeWhile) (simp add: ext_len_def)

lemma prefix_path_chars:
  "d \<le> length (takeWhile is_path_char s) \<Longrightarrow> list_all is_path_char (take d s)"
proof -
  assume d: "d \<le> length (takeWhile is_path_char s)"
  then have "take d s = take d (takeWhile is_path_char s)" by (rule take_within_takeWhile)
  then show ?thesis
    by (auto simp: list_all_iff dest!: in_set_takeD set_takeWhileD)
qed

lemma match_shape:
  assumes "file_re_match s = Some l"
  shows "file_shape (take l s)"
proof -
  from assms backtrack_SomeD
  obtain d where d: "1 \<le> d" "d \<le> length (takeWhile is_path_char s)" "dot_ok s d"
      "l = Suc d + ext_len (drop (Suc d) s)"
    unfolding file_re_match_def by blast
  let ?r = "drop (Suc d) s"
  let ?e = "take (ext_len ?r) ?r"
  from d(3) have dl: "d < length s" and dot: "s ! d = CHR ''.''" and ex: "0 < ext_len ?r"
    by (simp_all add: dot_ok_def)
  have "take l s = take (Suc d) s @ ?e"
    unfolding d(4) by (rule take_add)
  also have "take (Suc d) s = take d s @ ''.''"
    using dl dot by (simp add: take_Suc_conv_app_nth)
  finally have m: "take l s = take d s @ ''.'' @ ?e" by simp
  have p1: "take d s \<noteq> []" using d(1) dl by auto
  have p2: "list_all is_path_char (take d s)" using d(2) by (rule prefix_path_chars)
  have e0: "?e = take (ext_len ?r) (takeWhile is_word_char ?r)" by (rule take_ext)
  have e1: "?e \<noteq> []"
    using ex unfolding e0 by (auto simp: ext_len_def)
  have e2: "length ?e \<le> 6" by (simp add: ext_len_def)
  have e3: "list_all is_word_char ?e"
    unfolding e0 by (auto simp: list_all_iff dest!: in_set_takeD set_takeWhileD)
  from m p1 p2 e1 e2 e3 show ?thesis unfolding file_shape_def by blast
qed

lemma findall_shape: "m \<in> set (file_re_findall s) \<Longrightarrow> file_shape m"
proof (induction s rule: file_re_findall.induct)
  case (1 s)
  show ?case
  proof (cases "s = []")
    case True
    with "1.prems" show ?thesis by (simp add: file_re_findall.simps)
  next
    case ne: False
    show ?thesis
    proof (cases "file_re_match s")
      case None
      with ne "1.prems" have "m \<in> set (file_re_findall (tl s))"
        by (simp add: file_re_findall.simps [of s])
      with "1.IH"(1) [OF ne None] show ?thesis by simp
    next
      case (Some l)
      with ne "1.prems" have "m = take l s \<or> m \<in> set (file_re_findall (drop l s))"
        by (simp add: file_re_findall.simps [of s])
      then show ?thesis
        using match_shape [OF Some] "1.IH"(2) [OF ne Some] by auto
    qed
  qed
qed

lemma in_order_Cons: "in_order ms t \<Longrightarrow> in_order ms (c # t)"
proof (cases ms)
  case Nil
  then show ?thesis by simp
next
  case (Cons m ms')
  assume "in_order ms t"
  with Cons obtain pre post where "t = pre @ m @ post" "in_order ms' post" by auto
  then have "c # t = (c # pre) @ m @ post \<and> in_order ms' post" by simp
  with Cons show ?thesis by (simp del: append_Cons) blast
qed

lemma findall_in_order: "in_order (file_re_findall s) s"
proof (induction s rule: file_re_findall.induct)
  case (1 s)
  show ?case
  proof (cases "s = []")
    case True
    then show ?thesis by (simp add: file_re_findall.simps)
  next
    case ne: False
    show ?thesis
    proof (cases "file_re_match s")
      case None
      from "1.IH"(1) [OF ne None] have "in_order (file_re_findall (tl s)) (hd s # tl s)"
        by (rule in_order_Cons)
      with ne None show ?thesis by (simp add: file_re_findall.simps [of s])
    next
      case (Some l)
      have "s = [] @ take l s @ drop l s" by simp
      with "1.IH"(2) [OF ne Some] have "in_order (take l s # file_re_findall (drop l s)) s"
        unfolding in_order.simps by blast
      with ne Some show ?thesis by (simp add: file_re_findall.simps [of s])
    qed
  qed
qed

lemma file_shape_dot: "file_shape m \<Longrightarrow> CHR ''.'' \<in> set m"
  by (auto simp: file_shape_def)

lemma extract_is_take: "extract_file_refs text = take 5 (file_re_findall text)"
proof -
  have "filter (\<lambda>m. CHR ''/'' \<in> set m \<or> CHR ''.'' \<in> set m) (file_re_findall text)
        = file_re_findall text"
    by (rule filter_True) (auto dest: findall_shape file_shape_dot)
  then show ?thesis by (simp add: extract_file_refs_def)
qed

lemma in_order_take: "in_order ms t \<Longrightarrow> in_order (take n ms) t"
proof (induction ms arbitrary: t n)
  case Nil
  then show ?case by simp
next
  case (Cons m ms)
  then show ?case by (cases n) auto
qed

lemma in_order_set: "in_order ms t \<Longrightarrow> m \<in> set ms \<Longrightarrow> set m \<subseteq> set t"
proof (induction ms arbitrary: t)
  case Nil
  then show ?case by simp
next
  case (Cons a ms)
  from Cons.prems(1) obtain pre post where t: "t = pre @ a @ post" and r: "in_order ms post"
    by auto
  show ?case
  proof (cases "m = a")
    case True
    with t show ?thesis by auto
  next
    case False
    with Cons.prems(2) have "m \<in> set ms" by simp
    from Cons.IH [OF r this] t show ?thesis by auto
  qed
qed

lemma no_dot_no_match: "CHR ''.'' \<notin> set text \<Longrightarrow> file_re_findall text = []"
proof (rule ccontr)
  assume nd: "CHR ''.'' \<notin> set text" and ne: "file_re_findall text \<noteq> []"
  then obtain m where m: "m \<in> set (file_re_findall text)" by (cases "file_re_findall text") auto
  then have "CHR ''.'' \<in> set m" by (intro file_shape_dot findall_shape)
  moreover have "set m \<subseteq> set text" using findall_in_order m by (rule in_order_set)
  ultimately show False using nd by auto
qed

lemma word_char_not_dot: "is_word_char c \<Longrightarrow> c \<noteq> CHR ''.''"
  by (auto simp: is_word_char_def)

lemma word_char_path_char: "is_word_char c \<Longrightarrow> is_path_char c"
  by (simp add: is_path_char_def)

lemma backtrack_last:
  "1 \<le> d \<Longrightarrow> d \<le> k \<Longrightarrow> dot_ok s d \<Longrightarrow> (\<forall>j. d < j \<and> j \<le> k \<longrightarrow> \<not> dot_ok s j)
   \<Longrightarrow> backtrack s k = Some (Suc d + ext_len (drop (Suc d) s))"
proof (induction k)
  case 0
  then show ?case by simp
next
  case (Suc k)
  show ?case
  proof (cases "d = Suc k")
    case True
    with Suc.prems(3) show ?thesis by (simp only: backtrack_Suc if_True)
  next
    case False
    with Suc.prems have dk: "d \<le> k" and no: "\<not> dot_ok s (Suc k)" by auto
    from Suc.prems(4) have "\<forall>j. d < j \<and> j \<le> k \<longrightarrow> \<not> dot_ok s j" by auto
    from Suc.IH [OF Suc.prems(1) dk Suc.prems(3) this] no show ?thesis
      by (simp only: backtrack_Suc if_False)
  qed
qed

lemma shaped_text_match:
  assumes "file_shape text"
  shows "file_re_findall text = [text]"
proof -
  from assms obtain p e where t: "text = p @ ''.'' @ e" and p: "p \<noteq> []" "list_all is_path_char p"
    and e: "e \<noteq> []" "length e \<le> 6" "list_all is_word_char e"
    unfolding file_shape_def by blast
  let ?d = "length p"
  have allp: "list_all is_path_char text"
    using p(2) e(3) by (auto simp: t list_all_iff is_path_char_def)
  then have n: "length (takeWhile is_path_char text) = length text"
    by (simp add: list_all_iff takeWhile_eq_all_conv [THEN iffD2])
  have dr: "drop (Suc ?d) text = e" by (simp add: t)
  have tw: "takeWhile is_word_char e = e"
    using e(3) by (simp add: list_all_iff takeWhile_eq_all_conv [THEN iffD2])
  have el: "ext_len e = length e" using e(2) by (simp add: ext_len_def tw)
  have ok: "dot_ok text ?d"
    using e(1) by (simp add: dot_ok_def dr el) (simp add: t nth_append)
  have later: "\<forall>j. ?d < j \<and> j \<le> length text \<longrightarrow> \<not> dot_ok text j"
  proof (intro allI impI)
    fix j assume j: "?d < j \<and> j \<le> length text"
    show "\<not> dot_ok text j"
    proof (cases "j < length text")
      case False
      then show ?thesis by (simp add: dot_ok_def)
    next
      case True
      with j have "text ! j = e ! (j - Suc ?d)" "j - Suc ?d < length e"
        by (auto simp: t nth_append nth_Cons')
      with e(3) have "is_word_char (text ! j)" by (auto simp: list_all_iff)
      then show ?thesis using word_char_not_dot by (auto simp: dot_ok_def)
    qed
  qed
  have "1 \<le> ?d" using p(1) by (cases p) auto
  moreover have "?d \<le> length text" by (simp add: t)
  ultimately have "backtrack text (length text) = Some (Suc ?d + ext_len (drop (Suc ?d) text))"
    using ok later by (rule backtrack_last)
  then have m: "file_re_match text = Some (length text)"
    by (simp add: file_re_match_def n dr el) (simp add: t)
  have ne: "text \<noteq> []" by (simp add: t)
  have "file_re_findall [] = []" by (simp add: file_re_findall.simps)
  with m ne show ?thesis by (simp add: file_re_findall.simps [of "text"])
qed

lemma shape_example: "file_shape ''src/foo.py''"
proof -
  have "''src/foo.py'' = ''src/foo'' @ ''.'' @ ''py''" by simp
  moreover have "list_all is_path_char ''src/foo''" by code_simp
  moreover have "list_all is_word_char ''py''" by code_simp
  ultimately show ?thesis unfolding file_shape_def
    by (intro exI [of _ "''src/foo''"] exI [of _ "''py''"]) simp
qed

text \<open>
  Claim C4, as amended. For every input text, file-reference extraction returns the first
  five matches of the pattern, in the order they occur in the text and without overlap.
  Every reference is a non-empty run of path characters (word characters, dots, slashes,
  hyphens) followed by a dot and one to six word characters; so every reference contains
  a dot, a text without a dot has no reference, and a text that is exactly of that shape
  is its own single reference.
\<close>

theorem extract_file_refs_matches:
  "extract_file_refs text = take 5 (file_re_findall text)
   \<and> length (extract_file_refs text) \<le> 5
   \<and> (\<forall>m \<in> set (extract_file_refs text). file_shape m)
   \<and> in_order (extract_file_refs text) text
   \<and> (CHR ''.'' \<notin> set text \<longrightarrow> extract_file_refs text = [])
   \<and> (file_shape text \<longrightarrow> extract_file_refs text = [text])"
proof -
  have a: "extract_file_refs text = take 5 (file_re_findall text)" by (rule extract_is_take)
  have b: "length (extract_file_refs text) \<le> 5" by (simp add: a)
  have c: "\<forall>m \<in> set (extract_file_refs text). file_shape m"
    unfolding a by (auto dest: in_set_takeD findall_shape)
  have d: "in_order (extract_file_refs text) text"
    unfolding a by (intro in_order_take findall_in_order)
  have e: "CHR ''.'' \<notin> set text \<longrightarrow> extract_file_refs text = []"
    by (simp add: a no_dot_no_match)
  have f: "file_shape text \<longrightarrow> extract_file_refs text = [text]"
    by (simp add: a shaped_text_match)
  from a b c d e f show ?thesis by (intro conjI)
qed

theorem extract_file_refs_matches_witness:
  "file_shape ''src/foo.py''
   \<and> extract_file_refs ''src/foo.py'' = [''src/foo.py'']
   \<and> CHR ''.'' \<notin> set ''src/utils''
   \<and> extract_file_refs ''src/utils'' = []
   \<and> extract_file_refs ''fix src/foo.py, then docs/a.md'' = [''src/foo.py'', ''docs/a.md'']
   \<and> file_shape ''docs/a.md''"
proof -
  have nd: "CHR ''.'' \<notin> set ''src/utils''" by simp
  have ex: "extract_file_refs ''fix src/foo.py, then docs/a.md'' = [''src/foo.py'', ''docs/a.md'']"
    by code_simp
  from extract_file_refs_matches [of "''src/foo.py''"] shape_example
  have a: "extract_file_refs ''src/foo.py'' = [''src/foo.py'']" by blast
  from extract_file_refs_matches [of "''src/utils''"] nd
  have b: "extract_file_refs ''src/utils'' = []" by blast
  from extract_file_refs_matches [of "''fix src/foo.py, then docs/a.md''"] 
  have "\<forall>m \<in> set (extract_file_refs ''fix src/foo.py, then docs/a.md''). file_shape m" by blast
  then have c: "file_shape ''docs/a.md''" unfolding ex by simp
  from shape_example a nd b ex c show ?thesis by (intro conjI)
qed

text \<open>
  A path-like token is not extracted as such: \<open>src/utils\<close> has a slash and no extension
  and is not returned at all, and of \<open>notes.txt-old\<close> only \<open>notes.txt\<close> is returned.
\<close>

theorem path_token_without_extension_counterexample:
  "spec_file_refs ''see src/utils'' = [''src/utils'']
   \<and> extract_file_refs ''see src/utils'' = []
   \<and> spec_file_refs ''notes.txt-old'' = [''notes.txt-old'']
   \<and> extract_file_refs ''notes.txt-old'' = [''notes.txt'']
   \<and> extract_file_refs ''see src/utils'' \<noteq> spec_file_refs ''see src/utils''"
proof -
  have a: "spec_file_refs ''see src/utils'' = [''src/utils'']" by code_simp
  have b: "extract_file_refs ''see src/utils'' = []" by code_simp
  have c: "spec_file_refs ''notes.txt-old'' = [''notes.txt-old'']" by code_simp
  have d: "extract_file_refs ''notes.txt-old'' = [''notes.txt'']" by code_simp
  from a b c d show ?thesis by simp
qed

end
